theory Spec2Isabelle
  imports Main "HOL-Library.AList"
begin

section \<open>Python values the model needs\<close>

text \<open>
  Exceptions are values. Only the classes that the modelled code raises, catches or lets
  through are listed; \<open>OtherError\<close> stands for any exception class that is neither
  an \<open>OSError\<close> nor one of the others (a pickling error, a \<open>TypeError\<close>, ...).
\<close>

datatype error =
    KeyError | ValueError | IndexError | NameError string
  | OSError | IOError | UnpicklingError | OtherError

text \<open>
  A Python \<open>dict\<close> is an association list with distinct keys in insertion order:
  assigning to a present key keeps its position, assigning to a new key appends,
  \<open>del\<close> of a missing key raises \<open>KeyError\<close>.
\<close>

type_synonym ('k, 'v) dict = "('k \<times> 'v) list"

definition dict_contains :: "('k, 'v) dict \<Rightarrow> 'k \<Rightarrow> bool" where
  "dict_contains d k = (k \<in> set (map fst d))"

definition dict_getitem :: "('k, 'v) dict \<Rightarrow> 'k \<Rightarrow> error + 'v" where
  "dict_getitem d k = (case map_of d k of None \<Rightarrow> Inl KeyError | Some v \<Rightarrow> Inr v)"

definition dict_setitem :: "('k, 'v) dict \<Rightarrow> 'k \<Rightarrow> 'v \<Rightarrow> ('k, 'v) dict" where
  "dict_setitem d k v = AList.update k v d"

definition dict_delitem :: "('k, 'v) dict \<Rightarrow> 'k \<Rightarrow> error + ('k, 'v) dict" where
  "dict_delitem d k = (if dict_contains d k then Inr (AList.delete k d) else Inl KeyError)"

fun dict_update :: "('k, 'v) dict \<Rightarrow> ('k, 'v) dict \<Rightarrow> ('k, 'v) dict" where
  "dict_update d [] = d"
| "dict_update d ((k, v) # other) = dict_update (dict_setitem d k v) other"

definition len :: "'a list \<Rightarrow> int" where
  "len xs = int (length xs)"

section \<open>Archives and the archive-backed cache dictionary (\<open>_archives.py\<close>)\<close>

text \<open>
  The cache dictionary only asks three things of an archive: whether it is a
  \<open>null_archive\<close>, its contents (\<open>__asdict__\<close>, \<open>__getitem__\<close>) and
  \<open>update\<close>. \<open>Null_archive\<close> is the class \<open>null_archive\<close>: always empty, its
  \<open>update\<close> does nothing. \<open>Dict_archive\<close> is the class \<open>dict_archive\<close>, a plain
  dictionary, whose \<open>update\<close> is \<open>dict.update\<close> and cannot raise.
  \<open>Dir_archive\<close> is the class \<open>dir_archive\<close> as the cache dictionary sees it: the
  entries it holds, and the values that its serializer cannot write (\<open>dill.dump\<close>
  raises a pickling error for them). Its \<open>update\<close> calls \<open>__setitem__\<close>, that is
  \<open>_store\<close>, for each item in turn, and \<open>_store\<close> catches \<open>OSError\<close> only:
  the serializer's exception leaves \<open>_store\<close>, \<open>__setitem__\<close> and \<open>update\<close>
  with the key's entry as it was and the items before it stored. (\<open>_store\<close> itself is
  modelled file by file further down; here the storage is taken to work.)
\<close>

datatype ('k, 'v) archive =
    Null_archive
  | Dict_archive "('k, 'v) dict"
  | Dir_archive "('k, 'v) dict" "'v list"

fun is_null_archive :: "('k, 'v) archive \<Rightarrow> bool" where
  "is_null_archive Null_archive = True"
| "is_null_archive (Dict_archive d) = False"
| "is_null_archive (Dir_archive d unpicklable) = False"

fun asdict :: "('k, 'v) archive \<Rightarrow> ('k, 'v) dict" where
  "asdict Null_archive = []"
| "asdict (Dict_archive d) = d"
| "asdict (Dir_archive d unpicklable) = d"

definition archive_getitem :: "('k, 'v) archive \<Rightarrow> 'k \<Rightarrow> error + 'v" where
  "archive_getitem a k = dict_getitem (asdict a) k"

text \<open>\<open>dir_archive.__setitem__\<close>: the exception that leaves it, if any, and the
  entries.\<close>

definition dir_setitem ::
  "('k, 'v) dict \<Rightarrow> 'v list \<Rightarrow> 'k \<Rightarrow> 'v \<Rightarrow> error option \<times> ('k, 'v) dict" where
  "dir_setitem d unpicklable k v =
     (if v \<in> set unpicklable then (Some OtherError, d) else (None, dict_setitem d k v))"

text \<open>The loop \<open>for (key,val) in memo.items(): self.__setitem__(key,val)\<close> of
  \<open>dir_archive.update\<close>.\<close>

fun dir_update ::
  "('k, 'v) dict \<Rightarrow> 'v list \<Rightarrow> ('k, 'v) dict \<Rightarrow> error option \<times> ('k, 'v) dict" where
  "dir_update d unpicklable [] = (None, d)"
| "dir_update d unpicklable ((k, v) # memo) =
     (case dir_setitem d unpicklable k v of
        (Some e, d1) \<Rightarrow> (Some e, d1)
      | (None, d1) \<Rightarrow> dir_update d1 unpicklable memo)"

text \<open>\<open>archive.update(adict)\<close>: the exception that leaves it, if any, and the archive
  as it is then. In \<open>dir_archive.update\<close>, \<open>memo\<close> is a new \<open>dict\<close> updated
  with \<open>adict\<close>.\<close>

fun archive_update ::
  "('k, 'v) archive \<Rightarrow> ('k, 'v) dict \<Rightarrow> error option \<times> ('k, 'v) archive" where
  "archive_update Null_archive adict = (None, Null_archive)"
| "archive_update (Dict_archive d) adict = (None, Dict_archive (dict_update d adict))"
| "archive_update (Dir_archive d unpicklable) adict =
     (case dir_update d unpicklable (dict_update [] adict) of
        (e, d1) \<Rightarrow> (e, Dir_archive d1 unpicklable))"

text \<open>The archives whose \<open>update\<close> cannot raise: a \<open>null_archive\<close>, a
  \<open>dict_archive\<close>, and a \<open>dir_archive\<close> whose serializer can write every value.\<close>

fun reliable :: "('k, 'v) archive \<Rightarrow> bool" where
  "reliable Null_archive = True"
| "reliable (Dict_archive d) = True"
| "reliable (Dir_archive d unpicklable) = (unpicklable = [])"

text \<open>
  Class \<open>cache(dict)\<close>: the dictionary itself (\<open>entries\<close>) and the two archive
  slots \<open>__archive__\<close> (\<open>archive_slot\<close>) and \<open>__swap__\<close> (\<open>swap_slot\<close>).
\<close>

record ('k, 'v) cache =
  entries :: "('k, 'v) dict"
  archive_slot :: "('k, 'v) archive"
  swap_slot :: "('k, 'v) archive"

definition new_cache :: "('k, 'v) archive \<Rightarrow> ('k, 'v) cache" where
  "new_cache a = \<lparr>entries = [], archive_slot = a, swap_slot = Null_archive\<rparr>"

definition cache_getitem :: "('k, 'v) cache \<Rightarrow> 'k \<Rightarrow> error + 'v" where
  "cache_getitem c k = dict_getitem (entries c) k"

definition cache_setitem :: "('k, 'v) cache \<Rightarrow> 'k \<Rightarrow> 'v \<Rightarrow> ('k, 'v) cache" where
  "cache_setitem c k v = c\<lparr>entries := dict_setitem (entries c) k v\<rparr>"

definition cache_delitem :: "('k, 'v) cache \<Rightarrow> 'k \<Rightarrow> error + ('k, 'v) cache" where
  "cache_delitem c k =
     (case dict_delitem (entries c) k of
        Inl e \<Rightarrow> Inl e
      | Inr d \<Rightarrow> Inr (c\<lparr>entries := d\<rparr>))"

definition cache_clear :: "('k, 'v) cache \<Rightarrow> ('k, 'v) cache" where
  "cache_clear c = c\<lparr>entries := []\<rparr>"

text \<open>\<open>cache.load(*args)\<close>: everything when no key is given, then each given key, a
  key the archive does not hold being skipped.\<close>

definition load_arg :: "'k \<Rightarrow> ('k, 'v) cache \<Rightarrow> ('k, 'v) cache" where
  "load_arg arg c =
     (case archive_getitem (archive_slot c) arg of
        Inr v \<Rightarrow> c\<lparr>entries := dict_update (entries c) [(arg, v)]\<rparr>
      | Inl e \<Rightarrow> c)"

definition cache_load :: "('k, 'v) cache \<Rightarrow> 'k list \<Rightarrow> ('k, 'v) cache" where
  "cache_load c args =
     fold load_arg args
       (if args = [] then c\<lparr>entries := dict_update (entries c) (asdict (archive_slot c))\<rparr>
        else c)"

text \<open>\<open>cache.dump(*args)\<close>: everything when no key is given, then each given key
  that the cache holds. An exception of the archive's \<open>update\<close> leaves \<open>dump\<close>;
  the result is that exception, if any, and the cache as it is then.\<close>

definition archive_update_of ::
  "('k, 'v) cache \<Rightarrow> ('k, 'v) dict \<Rightarrow> error option \<times> ('k, 'v) cache" where
  "archive_update_of c adict =
     (case archive_update (archive_slot c) adict of
        (e, a) \<Rightarrow> (e, c\<lparr>archive_slot := a\<rparr>))"

fun dump_args :: "'k list \<Rightarrow> ('k, 'v) cache \<Rightarrow> error option \<times> ('k, 'v) cache" where
  "dump_args [] c = (None, c)"
| "dump_args (arg # args) c =
     (case map_of (entries c) arg of
        Some v \<Rightarrow>
          (case archive_update_of c [(arg, v)] of
             (Some e, c1) \<Rightarrow> (Some e, c1)
           | (None, c1) \<Rightarrow> dump_args args c1)
      | None \<Rightarrow> dump_args args c)"

definition cache_dump :: "('k, 'v) cache \<Rightarrow> 'k list \<Rightarrow> error option \<times> ('k, 'v) cache" where
  "cache_dump c args =
     (if args = [] then archive_update_of c (entries c) else dump_args args c)"

text \<open>\<open>cache.archived()\<close> with no argument.\<close>

definition archived :: "('k, 'v) cache \<Rightarrow> bool" where
  "archived c = (\<not> is_null_archive (archive_slot c))"

definition swap_archives :: "('k, 'v) cache \<Rightarrow> ('k, 'v) cache" where
  "swap_archives c = c\<lparr>archive_slot := swap_slot c, swap_slot := archive_slot c\<rparr>"

text \<open>\<open>cache.archived(on)\<close> with one argument; \<open>on\<close> is \<open>bool(on[0])\<close>.\<close>

definition archived_toggle :: "('k, 'v) cache \<Rightarrow> bool \<Rightarrow> error + ('k, 'v) cache" where
  "archived_toggle c on =
     (if on then
        (if \<not> is_null_archive (swap_slot c) then Inr (swap_archives c)
         else if is_null_archive (archive_slot c) then Inl ValueError
         else Inr c)
      else
        (if \<not> is_null_archive (archive_slot c) then Inr (swap_archives c)
         else Inr c))"

text \<open>The setter of the property \<open>cache.archive\<close> (\<open>__archive\<close>), which the
  wrappers' \<open>archive(obj)\<close> calls.\<close>

definition set_archive :: "('k, 'v) cache \<Rightarrow> ('k, 'v) archive \<Rightarrow> ('k, 'v) cache" where
  "set_archive c a =
     (let c1 = (if \<not> is_null_archive (swap_slot c) then swap_archives c else c)
      in c1\<lparr>archive_slot := a\<rparr>)"

section \<open>The cache decorators (\<open>_cache.py\<close>)\<close>

text \<open>
  What every decorator's closure holds: the cache dictionary and the statistics
  \<open>stats = [hit, miss, load]\<close>. A call of the wrapped function is given by the key
  that the keymap produces for its arguments and by the value \<open>computed\<close> that
  \<open>user_function\<close> returns for them should it be called.
\<close>

record ('k, 'v) engine =
  cache :: "('k, 'v) cache"
  hit :: nat
  miss :: nat
  load :: nat

definition new_engine :: "('k, 'v) archive \<Rightarrow> ('k, 'v) engine" where
  "new_engine a = \<lparr>cache = new_cache a, hit = 0, miss = 0, load = 0\<rparr>"

text \<open>\<open>info()\<close>: \<open>CacheInfo(hit, miss, load, maxsize, size)\<close>.\<close>

definition info :: "int option \<Rightarrow> ('k, 'v, 'z) engine_scheme \<Rightarrow> nat \<times> nat \<times> nat \<times> int option \<times> int" where
  "info maxsize st = (hit st, miss st, load st, maxsize, len (entries (cache st)))"

text \<open>
  A call of a wrapper either returns a result or raises an exception; either way it
  leaves the closure in a state, which later calls start from: \<open>Inr (result, st)\<close>
  and \<open>Inl (e, st)\<close>.
\<close>

fun state_after :: "error \<times> 's + 'v \<times> 's \<Rightarrow> 's" where
  "state_after (Inl (e, st)) = st"
| "state_after (Inr (result, st)) = st"

subsection \<open>\<open>no_cache\<close>\<close>

definition no_cache_wrapper ::
  "('k, 'v) engine \<Rightarrow> 'k \<Rightarrow> 'v \<Rightarrow> error \<times> ('k, 'v) engine + 'v \<times> ('k, 'v) engine" where
  "no_cache_wrapper st key computed =
     (let c0 = (if archived (cache st) then cache_load (cache st) [key] else cache st);
          (result, st1) =
            (case cache_getitem c0 key of
               Inr r \<Rightarrow> (r, st\<lparr>cache := cache_clear c0, load := load st + 1\<rparr>)
             | Inl e \<Rightarrow>
                 (computed, st\<lparr>cache := cache_setitem c0 key computed, miss := miss st + 1\<rparr>))
      in if len (entries (cache st1)) > 0 then
           (if archived (cache st1) then
              (case cache_dump (cache st1) [] of
                 (Some e, c2) \<Rightarrow> Inl (e, st1\<lparr>cache := c2\<rparr>)
               | (None, c2) \<Rightarrow> Inr (result, st1\<lparr>cache := cache_clear c2\<rparr>))
            else Inr (result, st1\<lparr>cache := cache_clear (cache st1)\<rparr>))
         else Inr (result, st1))"

definition no_cache_clear :: "('k, 'v) engine \<Rightarrow> bool \<Rightarrow> ('k, 'v) engine" where
  "no_cache_clear st keepstats = (if \<not> keepstats then st\<lparr>hit := 0, miss := 0, load := 0\<rparr> else st)"

fun no_cache_calls :: "('k, 'v) engine \<Rightarrow> ('k \<times> 'v) list \<Rightarrow> ('k, 'v) engine" where
  "no_cache_calls st [] = st"
| "no_cache_calls st ((key, computed) # calls) =
     no_cache_calls (state_after (no_cache_wrapper st key computed)) calls"

subsection \<open>The lookup shared by the caching wrappers\<close>

text \<open>
  \<open>inf_cache\<close>, \<open>lfu_cache\<close>, \<open>lru_cache\<close>, \<open>mru_cache\<close> and \<open>rr_cache\<close> open
  with the same nested \<open>try\<close>: the cache entry (a hit); failing that a single-key load
  from the archive when the cache is archived, and the cache entry again (a load); failing
  that the computed value, stored in the cache (a miss). \<open>fetch\<close> is that \<open>try\<close>,
  returning which of the three happened; each wrapper adds its own bookkeeping.
\<close>

datatype outcome = HIT | LOAD | MISS

definition fetch :: "('k, 'v) cache \<Rightarrow> 'k \<Rightarrow> 'v \<Rightarrow> outcome \<times> 'v \<times> ('k, 'v) cache" where
  "fetch c key computed =
     (case cache_getitem c key of
        Inr result \<Rightarrow> (HIT, result, c)
      | Inl e \<Rightarrow>
          (let c0 = (if archived c then cache_load c [key] else c)
           in case cache_getitem c0 key of
                Inr result \<Rightarrow> (LOAD, result, c0)
              | Inl e \<Rightarrow> (MISS, computed, cache_setitem c0 key computed)))"

text \<open>\<open>stats[HIT] += 1\<close>, \<open>stats[LOAD] += 1\<close>, \<open>stats[MISS] += 1\<close>.\<close>

fun count :: "outcome \<Rightarrow> ('k, 'v, 'z) engine_scheme \<Rightarrow> ('k, 'v, 'z) engine_scheme" where
  "count HIT st = st\<lparr>hit := hit st + 1\<rparr>"
| "count LOAD st = st\<lparr>load := load st + 1\<rparr>"
| "count MISS st = st\<lparr>miss := miss st + 1\<rparr>"

text \<open>\<open>cache.dump(); cache.clear()\<close>, the overflow handler of an archived cache.
  When \<open>dump\<close> raises, \<open>clear\<close> is not reached.\<close>

definition spill :: "('k, 'v) cache \<Rightarrow> error option \<times> ('k, 'v) cache" where
  "spill c =
     (case cache_dump c [] of
        (Some e, c1) \<Rightarrow> (Some e, c1)
      | (None, c1) \<Rightarrow> (None, cache_clear c1))"

subsection \<open>\<open>inf_cache\<close>\<close>






subsection \<open>\<open>Counter\<close>: a dictionary whose missing values read as zero\<close>

type_synonym 'k Counter = "('k, int) dict"

definition counter_get :: "'k Counter \<Rightarrow> 'k \<Rightarrow> int" where
  "counter_get c k = (case map_of c k of None \<Rightarrow> 0 | Some n \<Rightarrow> n)"

text \<open>\<open>c[k] += n\<close>.\<close>

definition counter_add :: "'k Counter \<Rightarrow> 'k \<Rightarrow> int \<Rightarrow> 'k Counter" where
  "counter_add c k n = dict_setitem c k (counter_get c k + n)"

subsection \<open>\<open>lfu_cache\<close>\<close>

record ('k, 'v) lfu_engine = "('k, 'v) engine" +
  use_count :: "'k Counter"

definition new_lfu :: "('k, 'v) archive \<Rightarrow> ('k, 'v) lfu_engine" where
  "new_lfu a = \<lparr>cache = new_cache a, hit = 0, miss = 0, load = 0, use_count = []\<rparr>"

text \<open>\<open>heapq.nsmallest(n, iterable, key)\<close> is \<open>sorted(iterable, key=key)[:n]\<close>, and
  \<open>sorted\<close> is stable, as \<open>sort_key\<close> is.\<close>

definition nsmallest :: "int \<Rightarrow> ('a \<Rightarrow> int) \<Rightarrow> 'a list \<Rightarrow> 'a list" where
  "nsmallest n key xs = take (nat n) (sort_key key xs)"

text \<open>The loop \<open>for k, _ in ...: del cache[k], use_count[k]\<close> over the keys chosen.\<close>

fun lfu_purge ::
  "'k list \<Rightarrow> ('k, 'v) lfu_engine \<Rightarrow> error \<times> ('k, 'v) lfu_engine + ('k, 'v) lfu_engine" where
  "lfu_purge [] st = Inr st"
| "lfu_purge (k # ks) st =
     (case cache_delitem (cache st) k of
        Inl e \<Rightarrow> Inl (e, st)
      | Inr c \<Rightarrow>
          (case dict_delitem (use_count st) k of
             Inl e \<Rightarrow> Inl (e, st\<lparr>cache := c\<rparr>)
           | Inr uc \<Rightarrow> lfu_purge ks (st\<lparr>cache := c, use_count := uc\<rparr>)))"

definition lfu_wrapper ::
  "int \<Rightarrow> ('k, 'v) lfu_engine \<Rightarrow> 'k \<Rightarrow> 'v
     \<Rightarrow> error \<times> ('k, 'v) lfu_engine + 'v \<times> ('k, 'v) lfu_engine" where
  "lfu_wrapper maxsize st key computed =
     (let (oc, result, c1) = fetch (cache st) key computed;
          st1 = count oc (st\<lparr>cache := c1, use_count := counter_add (use_count st) key 1\<rparr>)
      in if oc = HIT then Inr (result, st1)
         else if len (entries (cache st1)) > maxsize then
           (if archived (cache st1) then
              (case spill (cache st1) of
                 (Some e, c2) \<Rightarrow> Inl (e, st1\<lparr>cache := c2\<rparr>)
               | (None, c2) \<Rightarrow> Inr (result, st1\<lparr>cache := c2, use_count := []\<rparr>))
            else
              (case lfu_purge
                      (map fst (nsmallest (max 2 (maxsize div 10)) snd (use_count st1))) st1 of
                 Inl (e, st2) \<Rightarrow> Inl (e, st2)
               | Inr st2 \<Rightarrow> Inr (result, st2)))
         else Inr (result, st1))"

text \<open>A run of calls in which every call returns; it stops at the first call that
  raises, with the exception and the closure state it leaves.\<close>

fun lfu_calls ::
  "int \<Rightarrow> ('k, 'v) lfu_engine \<Rightarrow> ('k \<times> 'v) list
     \<Rightarrow> error \<times> ('k, 'v) lfu_engine + ('k, 'v) lfu_engine" where
  "lfu_calls maxsize st [] = Inr st"
| "lfu_calls maxsize st ((key, computed) # calls) =
     (case lfu_wrapper maxsize st key computed of
        Inl (e, st1) \<Rightarrow> Inl (e, st1)
      | Inr (result, st1) \<Rightarrow> lfu_calls maxsize st1 calls)"

subsection \<open>\<open>lru_cache\<close>\<close>

record ('k, 'v) lru_engine = "('k, 'v) engine" +
  queue :: "'k list"
  refcount :: "'k Counter"

definition new_lru :: "('k, 'v) archive \<Rightarrow> ('k, 'v) lru_engine" where
  "new_lru a = \<lparr>cache = new_cache a, hit = 0, miss = 0, load = 0, queue = [], refcount = []\<rparr>"

text \<open>
  \<open>key = queue_popleft(); refcount[key] -= 1\<close>, repeated \<open>while refcount[key]\<close>;
  \<open>popleft\<close> of the empty queue raises \<open>IndexError\<close>, the counters being as they
  are then. The result is the last key popped, the rest of the queue and the counters.
\<close>

fun lru_popleft ::
  "'k list \<Rightarrow> 'k Counter \<Rightarrow> error \<times> 'k Counter + 'k \<times> 'k list \<times> 'k Counter" where
  "lru_popleft [] rc = Inl (IndexError, rc)"
| "lru_popleft (key # q) rc =
     (let rc1 = counter_add rc key (- 1)
      in if counter_get rc1 key \<noteq> 0 then lru_popleft q rc1 else Inr (key, q, rc1))"

text \<open>The \<open>try\<close> and the purge of \<open>lru_cache\<close>'s wrapper, up to the compaction.\<close>

definition lru_access ::
  "int \<Rightarrow> ('k, 'v) lru_engine \<Rightarrow> 'k \<Rightarrow> 'v
     \<Rightarrow> error \<times> ('k, 'v) lru_engine + 'v \<times> ('k, 'v) lru_engine" where
  "lru_access maxsize st key computed =
     (let (oc, result, c1) = fetch (cache st) key computed;
          st1 = count oc (st\<lparr>cache := c1, queue := queue st @ [key],
                  refcount := counter_add (refcount st) key 1\<rparr>)
      in if oc = HIT then Inr (result, st1)
         else if len (entries (cache st1)) > maxsize then
           (if archived (cache st1) then
              (case spill (cache st1) of
                 (Some e, c2) \<Rightarrow> Inl (e, st1\<lparr>cache := c2\<rparr>)
               | (None, c2) \<Rightarrow>
                   Inr (result, st1\<lparr>cache := c2, queue := [], refcount := []\<rparr>))
            else
              (case lru_popleft (queue st1) (refcount st1) of
                 Inl (e, rc) \<Rightarrow> Inl (e, st1\<lparr>queue := [], refcount := rc\<rparr>)
               | Inr (k, q, rc) \<Rightarrow>
                   (case cache_delitem (cache st1) k of
                      Inl e \<Rightarrow> Inl (e, st1\<lparr>queue := q, refcount := rc\<rparr>)
                    | Inr c \<Rightarrow>
                        (case dict_delitem rc k of
                           Inl e \<Rightarrow> Inl (e, st1\<lparr>cache := c, queue := q, refcount := rc\<rparr>)
                         | Inr rc' \<Rightarrow>
                             Inr (result, st1\<lparr>cache := c, queue := q, refcount := rc'\<rparr>)))))
         else Inr (result, st1))"

text \<open>
  The compaction loop. After \<open>queue_appendleft(sentinel)\<close> the deque is
  \<open>kept @ [sentinel] @ rev pending\<close> with \<open>kept = []\<close>;
  \<open>iter(queue_pop, sentinel)\<close> pops from the right, so it yields \<open>pending\<close> in order
  and stops at the sentinel; \<open>filterfalse(refcount.__contains__, ...)\<close> skips a key
  that the counters already hold; the others go to the left end of the deque, that is in
  front of \<open>kept\<close>, with \<open>refcount[key] = 1\<close>.
\<close>

fun compact_loop :: "'k list \<Rightarrow> 'k list \<Rightarrow> 'k Counter \<Rightarrow> 'k list \<times> 'k Counter" where
  "compact_loop [] kept rc = (kept, rc)"
| "compact_loop (key # pending) kept rc =
     (if dict_contains rc key then compact_loop pending kept rc
      else compact_loop pending (key # kept) (dict_setitem rc key 1))"

definition lru_compact :: "int \<Rightarrow> ('k, 'v) lru_engine \<Rightarrow> ('k, 'v) lru_engine" where
  "lru_compact maxsize st =
     (if len (queue st) > maxsize * 10 then
        (let (q, rc) = compact_loop (rev (queue st)) [] []
         in st\<lparr>queue := q, refcount := rc\<rparr>)
      else st)"

definition lru_wrapper ::
  "int \<Rightarrow> ('k, 'v) lru_engine \<Rightarrow> 'k \<Rightarrow> 'v
     \<Rightarrow> error \<times> ('k, 'v) lru_engine + 'v \<times> ('k, 'v) lru_engine" where
  "lru_wrapper maxsize st key computed =
     (case lru_access maxsize st key computed of
        Inl (e, st1) \<Rightarrow> Inl (e, st1)
      | Inr (result, st1) \<Rightarrow> Inr (result, lru_compact maxsize st1))"

fun lru_calls ::
  "int \<Rightarrow> ('k, 'v) lru_engine \<Rightarrow> ('k \<times> 'v) list
     \<Rightarrow> error \<times> ('k, 'v) lru_engine + ('k, 'v) lru_engine" where
  "lru_calls maxsize st [] = Inr st"
| "lru_calls maxsize st ((key, computed) # calls) =
     (case lru_wrapper maxsize st key computed of
        Inl (e, st1) \<Rightarrow> Inl (e, st1)
      | Inr (result, st1) \<Rightarrow> lru_calls maxsize st1 calls)"

subsection \<open>\<open>mru_cache\<close>\<close>

record ('k, 'v) mru_engine = "('k, 'v) engine" +
  mru_queue :: "'k list"

definition new_mru :: "('k, 'v) archive \<Rightarrow> ('k, 'v) mru_engine" where
  "new_mru a = \<lparr>cache = new_cache a, hit = 0, miss = 0, load = 0, mru_queue = []\<rparr>"

text \<open>
  On a hit \<open>queue.remove(key)\<close> drops the first occurrence of the key and raises
  \<open>ValueError\<close>, which the \<open>except KeyError\<close> does not catch, when there is none.
  The purge \<open>del cache[queue_pop()]\<close> pops the right end (\<open>IndexError\<close> on an empty
  queue). Every path that returns ends with \<open>queue_append(key)\<close>.
\<close>

definition mru_wrapper ::
  "int \<Rightarrow> ('k, 'v) mru_engine \<Rightarrow> 'k \<Rightarrow> 'v
     \<Rightarrow> error \<times> ('k, 'v) mru_engine + 'v \<times> ('k, 'v) mru_engine" where
  "mru_wrapper maxsize st key computed =
     (let (oc, result, c1) = fetch (cache st) key computed
      in if oc = HIT then
           (if key \<in> set (mru_queue st) then
              Inr (result, count HIT (st\<lparr>mru_queue := remove1 key (mru_queue st) @ [key]\<rparr>))
            else Inl (ValueError, st))
         else
           (let st1 = count oc (st\<lparr>cache := c1\<rparr>)
            in if len (entries (cache st1)) > maxsize then
                 (if archived (cache st1) then
                    (case spill (cache st1) of
                       (Some e, c2) \<Rightarrow> Inl (e, st1\<lparr>cache := c2\<rparr>)
                     | (None, c2) \<Rightarrow> Inr (result, st1\<lparr>cache := c2, mru_queue := [key]\<rparr>))
                  else if mru_queue st1 = [] then Inl (IndexError, st1)
                  else
                    (case cache_delitem (cache st1) (last (mru_queue st1)) of
                       Inl e \<Rightarrow> Inl (e, st1\<lparr>mru_queue := butlast (mru_queue st1)\<rparr>)
                     | Inr c \<Rightarrow>
                         Inr (result,
                           st1\<lparr>cache := c, mru_queue := butlast (mru_queue st1) @ [key]\<rparr>)))
               else Inr (result, st1\<lparr>mru_queue := mru_queue st1 @ [key]\<rparr>)))"

fun mru_calls ::
  "int \<Rightarrow> ('k, 'v) mru_engine \<Rightarrow> ('k \<times> 'v) list
     \<Rightarrow> error \<times> ('k, 'v) mru_engine + ('k, 'v) mru_engine" where
  "mru_calls maxsize st [] = Inr st"
| "mru_calls maxsize st ((key, computed) # calls) =
     (case mru_wrapper maxsize st key computed of
        Inl (e, st1) \<Rightarrow> Inl (e, st1)
      | Inr (result, st1) \<Rightarrow> mru_calls maxsize st1 calls)"

subsection \<open>\<open>rr_cache\<close>\<close>

text \<open>\<open>random.choice(seq)\<close>: \<open>r\<close> is the random draw; an empty sequence raises
  \<open>IndexError\<close>.\<close>

definition choice :: "'a list \<Rightarrow> nat \<Rightarrow> error + 'a" where
  "choice seq r = (if seq = [] then Inl IndexError else Inr (seq ! (r mod length seq)))"

definition rr_wrapper ::
  "int \<Rightarrow> ('k, 'v) engine \<Rightarrow> 'k \<Rightarrow> 'v \<Rightarrow> nat
     \<Rightarrow> error \<times> ('k, 'v) engine + 'v \<times> ('k, 'v) engine" where
  "rr_wrapper maxsize st key computed r =
     (let (oc, result, c1) = fetch (cache st) key computed;
          st1 = count oc (st\<lparr>cache := c1\<rparr>)
      in if oc = HIT then Inr (result, st1)
         else if len (entries (cache st1)) > maxsize then
           (if archived (cache st1) then
              (case spill (cache st1) of
                 (Some e, c2) \<Rightarrow> Inl (e, st1\<lparr>cache := c2\<rparr>)
               | (None, c2) \<Rightarrow> Inr (result, st1\<lparr>cache := c2\<rparr>))
            else
              (case choice (map fst (entries (cache st1))) r of
                 Inl e \<Rightarrow> Inl (e, st1)
               | Inr k \<Rightarrow>
                   (case cache_delitem (cache st1) k of
                      Inl e \<Rightarrow> Inl (e, st1)
                    | Inr c \<Rightarrow> Inr (result, st1\<lparr>cache := c\<rparr>))))
         else Inr (result, st1))"

fun rr_calls ::
  "int \<Rightarrow> ('k, 'v) engine \<Rightarrow> ('k \<times> 'v \<times> nat) list
     \<Rightarrow> error \<times> ('k, 'v) engine + ('k, 'v) engine" where
  "rr_calls maxsize st [] = Inr st"
| "rr_calls maxsize st ((key, computed, r) # calls) =
     (case rr_wrapper maxsize st key computed r of
        Inl (e, st1) \<Rightarrow> Inl (e, st1)
      | Inr (result, st1) \<Rightarrow> rr_calls maxsize st1 calls)"

subsection \<open>Constructing a bounded decorator\<close>

text \<open>
  \<open>lfu_cache\<close>, \<open>lru_cache\<close>, \<open>mru_cache\<close> and \<open>rr_cache\<close> open with the same two
  tests on \<open>maxsize\<close>. The first returns
  \<open>no_cache(cache=cache, keymap=keymep, ignore=ignore, tol=tol, deep=deep)\<close>: before
  \<open>no_cache\<close> is called, Python evaluates the callee and the argument expressions in
  order, each a name looked up among the function's parameters and then the globals of
  \<open>_cache.py\<close> (and the builtins, none of which is one of these names); a name bound
  nowhere raises \<open>NameError\<close>. \<open>decorator\<close> says which decorating function the
  call returns.
\<close>

datatype decorator =
  No_cache | Inf_cache | Lfu_cache int | Lru_cache int | Mru_cache int | Rr_cache int

definition parameters :: "string list" where
  "parameters = [''maxsize'', ''cache'', ''keymap'', ''ignore'', ''tol'', ''deep'']"

definition module_globals :: "string list" where
  "module_globals =
     [''absolute_import'', ''deque'', ''choice'', ''nsmallest'', ''itemgetter'',
      ''filterfalse'', ''update_wrapper'', ''RLock'', ''deep_round'', ''simple_round'',
      ''archive_dict'', ''hashmap'', ''CacheInfo'', ''_keygen'', ''__all__'', ''Counter'',
      ''no_cache'', ''inf_cache'', ''lfu_cache'', ''lru_cache'', ''mru_cache'', ''rr_cache'']"

fun eval_names :: "string list \<Rightarrow> error + unit" where
  "eval_names [] = Inr ()"
| "eval_names (n # ns) =
     (if n \<in> set parameters \<or> n \<in> set module_globals then eval_names ns
      else Inl (NameError n))"

definition lfu_cache :: "int option \<Rightarrow> error + decorator" where
  "lfu_cache maxsize =
     (if maxsize = Some 0 then
        (case eval_names [''no_cache'', ''cache'', ''keymep'', ''ignore'', ''tol'', ''deep''] of
           Inl e \<Rightarrow> Inl e
         | Inr u \<Rightarrow> Inr No_cache)
      else
        (case maxsize of
           None \<Rightarrow>
             (case eval_names [''inf_cache'', ''cache'', ''keymap'', ''ignore'', ''tol'', ''deep''] of
                Inl e \<Rightarrow> Inl e
              | Inr u \<Rightarrow> Inr Inf_cache)
         | Some m \<Rightarrow> Inr (Lfu_cache m)))"

definition lru_cache :: "int option \<Rightarrow> error + decorator" where
  "lru_cache maxsize =
     (if maxsize = Some 0 then
        (case eval_names [''no_cache'', ''cache'', ''keymep'', ''ignore'', ''tol'', ''deep''] of
           Inl e \<Rightarrow> Inl e
         | Inr u \<Rightarrow> Inr No_cache)
      else
        (case maxsize of
           None \<Rightarrow>
             (case eval_names [''inf_cache'', ''cache'', ''keymap'', ''ignore'', ''tol'', ''deep''] of
                Inl e \<Rightarrow> Inl e
              | Inr u \<Rightarrow> Inr Inf_cache)
         | Some m \<Rightarrow> Inr (Lru_cache m)))"

definition mru_cache :: "int option \<Rightarrow> error + decorator" where
  "mru_cache maxsize =
     (if maxsize = Some 0 then
        (case eval_names [''no_cache'', ''cache'', ''keymep'', ''ignore'', ''tol'', ''deep''] of
           Inl e \<Rightarrow> Inl e
         | Inr u \<Rightarrow> Inr No_cache)
      else
        (case maxsize of
           None \<Rightarrow>
             (case eval_names [''inf_cache'', ''cache'', ''keymap'', ''ignore'', ''tol'', ''deep''] of
                Inl e \<Rightarrow> Inl e
              | Inr u \<Rightarrow> Inr Inf_cache)
         | Some m \<Rightarrow> Inr (Mru_cache m)))"

definition rr_cache :: "int option \<Rightarrow> error + decorator" where
  "rr_cache maxsize =
     (if maxsize = Some 0 then
        (case eval_names [''no_cache'', ''cache'', ''keymep'', ''ignore'', ''tol'', ''deep''] of
           Inl e \<Rightarrow> Inl e
         | Inr u \<Rightarrow> Inr No_cache)
      else
        (case maxsize of
           None \<Rightarrow>
             (case eval_names [''inf_cache'', ''cache'', ''keymap'', ''ignore'', ''tol'', ''deep''] of
                Inl e \<Rightarrow> Inl e
              | Inr u \<Rightarrow> Inr Inf_cache)
         | Some m \<Rightarrow> Inr (Rr_cache m)))"

text \<open>
  The position, counted from 1 at the left end of the queue, of the most recent
  occurrence of a key in the access history; 0 when the key does not occur. It states the
  order in which compaction is specified to keep the keys.
\<close>

fun last_access :: "'k list \<Rightarrow> 'k \<Rightarrow> nat" where
  "last_access [] k = 0"
| "last_access (x # xs) k =
     (if last_access xs k > 0 then Suc (last_access xs k) else if x = k then 1 else 0)"

subsection \<open>What the bounded wrappers keep true\<close>

text \<open>
  The properties of the closure state that every call of a bounded wrapper keeps when it
  returns, from
  which the capacity bound follows: the keys of the cache are distinct and at most
  \<open>m\<close>; for \<open>lfu_cache\<close> the counters count exactly the cached keys; for
  \<open>mru_cache\<close> every cached key is in the queue, and without an archive the queue
  holds exactly the cached keys, once each; for \<open>lru_cache\<close> the queue holds cached
  keys only and each counter is the number of occurrences of its key in the queue.
\<close>

definition rr_inv :: "int \<Rightarrow> ('k, 'v) engine \<Rightarrow> bool" where
  "rr_inv m st = (distinct (map fst (entries (cache st))) \<and> len (entries (cache st)) \<le> m)"

definition mru_inv :: "int \<Rightarrow> ('k, 'v) mru_engine \<Rightarrow> bool" where
  "mru_inv m st =
     (distinct (map fst (entries (cache st)))
      \<and> set (map fst (entries (cache st))) \<subseteq> set (mru_queue st)
      \<and> (\<not> archived (cache st) \<longrightarrow>
           distinct (mru_queue st) \<and> set (mru_queue st) \<subseteq> set (map fst (entries (cache st))))
      \<and> len (entries (cache st)) \<le> m)"

definition lru_inv :: "int \<Rightarrow> ('k, 'v) lru_engine \<Rightarrow> bool" where
  "lru_inv m st =
     (distinct (map fst (entries (cache st)))
      \<and> set (queue st) \<subseteq> set (map fst (entries (cache st)))
      \<and> (\<forall>k. counter_get (refcount st) k = int (count_list (queue st) k))
      \<and> len (entries (cache st)) \<le> m)"

definition lfu_inv :: "int \<Rightarrow> ('k, 'v) lfu_engine \<Rightarrow> bool" where
  "lfu_inv m st =
     (distinct (map fst (entries (cache st))) \<and> distinct (map fst (use_count st))
      \<and> set (map fst (use_count st)) = set (map fst (entries (cache st)))
      \<and> len (entries (cache st)) \<le> m)"

section \<open>The directory archive (\<open>dir_archive\<close> in \<open>_archives.py\<close>)\<close>

text \<open>
  The tree under the archive's root maps the name of each subdirectory to its files, by
  name. A file can be opened for reading or not (\<open>readable\<close>), and holds either the
  serialization of an object or bytes that the deserializer rejects (\<open>Garbage\<close>: a
  truncated or corrupt file). Keys and values are Python objects of one type \<open>'o\<close>.
  Of the archive's \<open>__state__\<close> the model keeps \<open>serialized\<close>, which chooses the file
  names; the three ways of writing and reading a file (dill, the fast pickler, an
  importable module) have the same shape and are modelled once.
\<close>

datatype 'o contents = Pickled 'o | Garbage

record 'o disk_file =
  readable :: bool
  contents :: "'o contents"

type_synonym 'o tree = "string \<rightharpoonup> (string \<rightharpoonup> 'o disk_file)"

record 'o dir_archive =
  serialized :: bool
  tree :: "'o tree"

text \<open>
  What \<open>_fname\<close> and \<open>_store\<close> ask of a key, code that is not in \<open>_archives.py\<close>:
  whether it is a pickle string (\<open>key.startswith(PROTO) and key.endswith(STOP)\<close>), its
  \<open>hash(key, 'md5')\<close> (from \<open>crypto\<close>), its \<open>str(key)\<close>, and the string it is when
  it is a \<open>str\<close> (for the comparison \<open>self._fname(key) != key\<close>).
\<close>

record 'o keycodec =
  ispickle :: "'o \<Rightarrow> bool"
  hash_md5 :: "'o \<Rightarrow> string"
  str :: "'o \<Rightarrow> string"
  as_str :: "'o \<Rightarrow> string option"

text \<open>The codec of plain string keys: no pickles, \<open>str(key) == key\<close>.\<close>

definition plain_keys :: "string keycodec" where
  "plain_keys = \<lparr>ispickle = (\<lambda>k. False), hash_md5 = (\<lambda>k. k), str = (\<lambda>k. k), as_str = Some\<rparr>"

definition PREFIX :: string where "PREFIX = ''K_''"

definition TEMP :: string where "TEMP = ''I_''"

definition fname :: "'o keycodec \<Rightarrow> 'o \<Rightarrow> string" where
  "fname kc key = (if ispickle kc key then hash_md5 kc key else str kc key)"

text \<open>\<open>_getdir\<close>: the name of the key's subdirectory under the root.\<close>

definition getdir :: "'o keycodec \<Rightarrow> 'o \<Rightarrow> string" where
  "getdir kc key = PREFIX @ fname kc key"

text \<open>The properties \<open>_file\<close> and \<open>_args\<close>.\<close>

definition file_name :: "'o dir_archive \<Rightarrow> string" where
  "file_name d = (if serialized d then ''output.pkl'' else ''__init__.py'')"

definition args_name :: "'o dir_archive \<Rightarrow> string" where
  "args_name d = (if serialized d then ''input.pkl'' else ''__args__.py'')"

text \<open>
  Opening a file for reading raises when the directory or the file is missing or the
  file is not readable; deserializing raises on bytes that are no serialization.
\<close>

definition open_rb :: "'o tree \<Rightarrow> string \<Rightarrow> string \<Rightarrow> error + 'o contents" where
  "open_rb t dir name =
     (case t dir of
        None \<Rightarrow> Inl IOError
      | Some files \<Rightarrow>
          (case files name of
             None \<Rightarrow> Inl IOError
           | Some f \<Rightarrow> if readable f then Inr (contents f) else Inl IOError))"

fun deserialize :: "'o contents \<Rightarrow> error + 'o" where
  "deserialize (Pickled x) = Inr x"
| "deserialize Garbage = Inl UnpicklingError"

text \<open>The body of the \<open>try\<close> of \<open>_lookup\<close>: open, load.\<close>

definition read_memo :: "'o tree \<Rightarrow> string \<Rightarrow> string \<Rightarrow> error + 'o" where
  "read_memo t dir name =
     (case open_rb t dir name of
        Inl e \<Rightarrow> Inl e
      | Inr c \<Rightarrow> deserialize c)"

text \<open>\<open>_lookup\<close>: the bare \<open>except\<close> turns every exception into \<open>KeyError(key)\<close>.\<close>

definition lookup :: "'o keycodec \<Rightarrow> 'o dir_archive \<Rightarrow> 'o \<Rightarrow> bool \<Rightarrow> error + 'o" where
  "lookup kc d key input =
     (case read_memo (tree d) (getdir kc key) (if input then args_name d else file_name d) of
        Inl e \<Rightarrow> Inl KeyError
      | Inr memo \<Rightarrow> Inr memo)"

definition getitem :: "'o keycodec \<Rightarrow> 'o dir_archive \<Rightarrow> 'o \<Rightarrow> error + 'o" where
  "getitem kc d key = lookup kc d key False"

text \<open>\<open>get(key, value)\<close>: the bare \<open>except\<close> returns the default.\<close>

definition get :: "'o keycodec \<Rightarrow> 'o dir_archive \<Rightarrow> 'o \<Rightarrow> 'o \<Rightarrow> 'o" where
  "get kc d key dflt =
     (case getitem kc d key of
        Inr v \<Rightarrow> v
      | Inl e \<Rightarrow> dflt)"

text \<open>
  How the storage behaves during one \<open>_store\<close>. \<open>mkdir_ok\<close>: the temporary directory
  can be created (otherwise \<open>mkdir\<close> raises \<open>OSError\<close>, which \<open>_mkdir\<close> catches).
  \<open>nodir_error\<close>: the exception of \<open>open(..., 'wb')\<close> in a directory that does not
  exist. \<open>output_write\<close> and \<open>input_write\<close>: how writing the value file and the key
  file goes: written; \<open>open\<close> raises and nothing is created; or the serializer raises
  part-way and leaves a truncated file. \<open>rename_error\<close>: the exception of
  \<open>os.renames\<close>, if any. An I/O failure is an \<open>OSError\<close> in Python 3 and an
  \<open>IOError\<close>, which is no \<open>OSError\<close>, in Python 2; the exceptions are parameters, so
  both are covered.
\<close>

datatype write_outcome = Written | OpenRaises error | DumpRaises error

record faults =
  mkdir_ok :: bool
  nodir_error :: error
  output_write :: write_outcome
  input_write :: write_outcome
  rename_error :: "error option"

definition no_faults :: faults where
  "no_faults = \<lparr>mkdir_ok = True, nodir_error = OSError, output_write = Written,
                input_write = Written, rename_error = None\<rparr>"

definition write_file ::
  "'o tree \<Rightarrow> string \<Rightarrow> string \<Rightarrow> 'o \<Rightarrow> write_outcome \<Rightarrow> error \<Rightarrow> error option \<times> 'o tree" where
  "write_file t dir name obj oc nodir =
     (case t dir of
        None \<Rightarrow> (Some nodir, t)
      | Some files \<Rightarrow>
          (case oc of
             Written \<Rightarrow>
               (None, t(dir \<mapsto> files(name \<mapsto> \<lparr>readable = True, contents = Pickled obj\<rparr>)))
           | OpenRaises e \<Rightarrow> (Some e, t)
           | DumpRaises e \<Rightarrow>
               (Some e, t(dir \<mapsto> files(name \<mapsto> \<lparr>readable = True, contents = Garbage\<rparr>)))))"

text \<open>
  The name of the temporary directory: \<open>_key = TEMP + hash(random(), 'md5')\<close>, with
  \<open>rnd\<close> the hash; \<open>_fname\<close> of this string is the string itself, and \<open>_mkdir\<close> and
  \<open>_getdir\<close> put \<open>PREFIX\<close> in front of it.
\<close>

definition tempdir :: "string \<Rightarrow> string" where
  "tempdir rnd = PREFIX @ TEMP @ rnd"

text \<open>
  The first \<open>try\<close> of \<open>_store\<close>: create the temporary directory and write the value
  file and, when \<open>input\<close>, the key file. The result is the exception that leaves the
  body, if any, and the tree.
\<close>

definition write_phase ::
  "'o dir_archive \<Rightarrow> 'o \<Rightarrow> 'o \<Rightarrow> bool \<Rightarrow> string \<Rightarrow> faults \<Rightarrow> error option \<times> 'o tree" where
  "write_phase d key val input rnd fl =
     (let t0 = tree d;
          t1 = (if mkdir_ok fl \<and> t0 (tempdir rnd) = None then t0(tempdir rnd \<mapsto> Map.empty)
                else t0);
          (e1, t2) = write_file t1 (tempdir rnd) (file_name d) val (output_write fl)
                       (nodir_error fl)
      in if e1 = None \<and> input then
           write_file t2 (tempdir rnd) (args_name d) key (input_write fl) (nodir_error fl)
         else (e1, t2))"

text \<open>
  The second \<open>try\<close>: \<open>_rmdir(key)\<close> removes the key's subdirectory (the removal
  is taken to succeed; \<open>rmtree\<close> is called with \<open>ignore_errors=True\<close>), and
  \<open>os.renames\<close> moves the temporary directory there; it raises \<open>OSError\<close> when
  the temporary directory does not exist. \<open>OSError\<close> is swallowed.
\<close>

definition move_phase ::
  "'o keycodec \<Rightarrow> 'o tree \<Rightarrow> 'o \<Rightarrow> string \<Rightarrow> faults \<Rightarrow> error option \<times> 'o tree" where
  "move_phase kc t key rnd fl =
     (let t1 = t(getdir kc key := None)
      in case rename_error fl of
           Some e \<Rightarrow> (if e = OSError then (None, t1) else (Some e, t1))
         | None \<Rightarrow>
             (case t1 (tempdir rnd) of
                None \<Rightarrow> (None, t1)
              | Some files \<Rightarrow> (None, t1(getdir kc key \<mapsto> files, tempdir rnd := None))))"

text \<open>\<open>_store\<close>: an \<open>OSError\<close> of the first \<open>try\<close> is swallowed and the second
  \<open>try\<close> runs all the same; any other exception leaves \<open>_store\<close>.\<close>

definition store ::
  "'o keycodec \<Rightarrow> 'o dir_archive \<Rightarrow> 'o \<Rightarrow> 'o \<Rightarrow> bool \<Rightarrow> string \<Rightarrow> faults
     \<Rightarrow> error option \<times> 'o dir_archive" where
  "store kc d key val input rnd fl =
     (let input1 = (input \<or> as_str kc key \<noteq> Some (fname kc key));
          (e, t) = write_phase d key val input1 rnd fl
      in if e \<noteq> None \<and> e \<noteq> Some OSError then (e, d\<lparr>tree := t\<rparr>)
         else
           (let (e2, t2) = move_phase kc t key rnd fl
            in (e2, d\<lparr>tree := t2\<rparr>)))"

definition setitem ::
  "'o keycodec \<Rightarrow> 'o dir_archive \<Rightarrow> 'o \<Rightarrow> 'o \<Rightarrow> string \<Rightarrow> faults
     \<Rightarrow> error option \<times> 'o dir_archive" where
  "setitem kc d key val rnd fl = store kc d key val False rnd fl"

text \<open>
  An archive to run the operations on: under the root, the key \<open>b\<close> has an empty
  subdirectory, the value file of \<open>c\<close> cannot be read, that of \<open>g\<close> holds bytes
  that are no serialization, and \<open>k\<close> is stored with the value \<open>v\<close>. The key
  \<open>a\<close> has no subdirectory.
\<close>

definition shelf :: "string dir_archive" where
  "shelf = \<lparr>serialized = True,
     tree = [''K_b'' \<mapsto> Map.empty,
             ''K_c'' \<mapsto> [''output.pkl'' \<mapsto> \<lparr>readable = False, contents = Pickled ''v''\<rparr>],
             ''K_g'' \<mapsto> [''output.pkl'' \<mapsto> \<lparr>readable = True, contents = Garbage\<rparr>],
             ''K_k'' \<mapsto> [''output.pkl'' \<mapsto> \<lparr>readable = True, contents = Pickled ''v''\<rparr>]]\<rparr>"

section \<open>Archive slots\<close>

text \<open>
  C4, as stated: \<open>set_archive\<close> leaves the swap slot unchanged in every state. It
  fails when the swap slot holds an archive: with a null active archive and the archive
  \<open>{1: 10}\<close> in the swap slot, setting the archive \<open>{}\<close> leaves a null swap slot.
\<close>

theorem set_archive_swap_counterexample:
  "swap_slot (set_archive
      \<lparr>entries = [], archive_slot = Null_archive,
       swap_slot = Dict_archive [(1::nat, 10::nat)]\<rparr> (Dict_archive []))
   \<noteq> Dict_archive [(1::nat, 10::nat)]"
  by (simp add: set_archive_def swap_archives_def)

text \<open>
  C4, amended: in every state \<open>set_archive\<close> makes the given archive the active one
  and keeps the entries; the swap slot is unchanged when it is null, and receives the
  previous active archive when it is not.
\<close>

theorem set_archive_slots:
  "archive_slot (set_archive c a) = a
   \<and> entries (set_archive c a) = entries c
   \<and> swap_slot (set_archive c a) =
       (if is_null_archive (swap_slot c) then swap_slot c else archive_slot c)"
  by (simp add: set_archive_def swap_archives_def Let_def)

theorem set_archive_slots_witness:
  "archive_slot (set_archive (new_cache (Dict_archive [(1::nat, 10::nat)])) Null_archive)
     = Null_archive
   \<and> swap_slot (set_archive (new_cache (Dict_archive [(1::nat, 10::nat)])) Null_archive)
     = Null_archive"
  using set_archive_slots [of "new_cache (Dict_archive [(1::nat, 10::nat)])" Null_archive]
  by (simp add: new_cache_def)

text \<open>
  The states that the cache's own operations reach: a new cache has a null swap slot, and
  the setter and the toggle keep a non-null swap slot together with a null active archive.
\<close>

lemma slots_reachable:
  "is_null_archive (swap_slot (new_cache a))"
  "(\<not> is_null_archive (swap_slot c) \<longrightarrow> is_null_archive (archive_slot c)) \<Longrightarrow>
   is_null_archive (swap_slot (set_archive c a))"
  "(\<not> is_null_archive (swap_slot c) \<longrightarrow> is_null_archive (archive_slot c)) \<Longrightarrow>
   archived_toggle c on = Inr c' \<Longrightarrow>
   \<not> is_null_archive (swap_slot c') \<longrightarrow> is_null_archive (archive_slot c')"
  by (auto simp: new_cache_def set_archive_def swap_archives_def archived_toggle_def Let_def
      split: if_splits)

text \<open>
  C7: \<open>archived()\<close> is true exactly when the active archive is not null.
  \<open>archived(on)\<close> raises exactly when \<open>on\<close> is true and both slots hold null
  archives, and then it is a \<open>ValueError\<close>; when the requested state differs from the
  current one and it does not raise, it exchanges the two slots: the archive of the swap
  slot becomes the active one, the active one goes to the swap slot, and the entries stay;
  when the requested state is the current one it changes nothing, and after every toggle
  that returns \<open>archived()\<close> is the requested state, in every state where a non-null
  swap slot goes with a null active archive (the states that the cache's own operations
  reach from a new cache, see \<open>slots_reachable\<close>).
\<close>

theorem archived_contract:
  "archived c = (\<not> is_null_archive (archive_slot c))
   \<and> ((\<exists>e. archived_toggle c on = Inl e)
        = (on \<and> is_null_archive (archive_slot c) \<and> is_null_archive (swap_slot c)))
   \<and> (\<forall>e. archived_toggle c on = Inl e \<longrightarrow> e = ValueError)
   \<and> (on \<noteq> archived c \<longrightarrow>
        archived_toggle c on =
          (if on \<and> is_null_archive (swap_slot c) then Inl ValueError
           else Inr \<lparr>entries = entries c, archive_slot = swap_slot c,
                     swap_slot = archive_slot c\<rparr>))
   \<and> (on = archived c \<longrightarrow>
        (\<not> is_null_archive (swap_slot c) \<longrightarrow> is_null_archive (archive_slot c)) \<longrightarrow>
        archived_toggle c on = Inr c)
   \<and> ((\<not> is_null_archive (swap_slot c) \<longrightarrow> is_null_archive (archive_slot c)) \<longrightarrow>
        (\<forall>c'. archived_toggle c on = Inr c' \<longrightarrow> archived c' = on))"
  by (cases c) (auto simp: archived_def archived_toggle_def swap_archives_def)

text \<open>
  Turning the archive on from a null active archive and the archive \<open>{1: 10}\<close> in the
  swap slot activates that archive; turning it off again puts it back in the swap slot;
  turning it on with no archive in either slot raises; asking for the current state
  changes nothing.
\<close>

theorem archived_contract_witness:
  "archived_toggle
      \<lparr>entries = [(2::nat, 20::nat)], archive_slot = Null_archive,
       swap_slot = Dict_archive [(1, 10)]\<rparr> True
     = Inr \<lparr>entries = [(2, 20)], archive_slot = Dict_archive [(1, 10)],
            swap_slot = Null_archive\<rparr>
   \<and> archived_toggle
      \<lparr>entries = [(2::nat, 20::nat)], archive_slot = Dict_archive [(1, 10)],
       swap_slot = Null_archive\<rparr> False
     = Inr \<lparr>entries = [(2, 20)], archive_slot = Null_archive,
            swap_slot = Dict_archive [(1, 10)]\<rparr>
   \<and> archived_toggle (new_cache (Null_archive :: (nat, nat) archive)) True = Inl ValueError
   \<and> archived_toggle (new_cache (Dict_archive [(1::nat, 10::nat)])) True
     = Inr (new_cache (Dict_archive [(1::nat, 10::nat)]))
   \<and> archived_toggle (new_cache (Null_archive :: (nat, nat) archive)) False
     = Inr (new_cache Null_archive)"
  using archived_contract [of "\<lparr>entries = [(2::nat, 20::nat)], archive_slot = Null_archive,
       swap_slot = Dict_archive [(1, 10)]\<rparr>" True]
        archived_contract [of "\<lparr>entries = [(2::nat, 20::nat)],
       archive_slot = Dict_archive [(1, 10)], swap_slot = Null_archive\<rparr>" False]
        archived_contract [of "new_cache (Null_archive :: (nat, nat) archive)" True]
        archived_contract [of "new_cache (Dict_archive [(1::nat, 10::nat)])" True]
        archived_contract [of "new_cache (Null_archive :: (nat, nat) archive)" False]
  by (simp add: new_cache_def archived_def)

section \<open>Dumping to the archive\<close>

lemma dir_update_reliable: "dir_update d [] memo = (None, dict_update d memo)"
  by (induction d "[] :: 'b list" memo rule: dir_update.induct) (simp_all add: dir_setitem_def)

lemma archive_update_cases:
  "archive_update a adict = (e, a') \<Longrightarrow>
   is_null_archive a' = is_null_archive a \<and> (reliable a \<longrightarrow> e = None \<and> reliable a')"
  by (cases a) (auto simp: dir_update_reliable split: prod.splits)

lemma cache_dump_all:
  assumes "cache_dump c [] = (e, c')"
  shows "entries c' = entries c \<and> swap_slot c' = swap_slot c \<and> archived c' = archived c
       \<and> (reliable (archive_slot c) \<longrightarrow> e = None \<and> reliable (archive_slot c'))"
proof -
  obtain a' where u: "archive_update (archive_slot c) (entries c) = (e, a')"
    and c': "c' = c\<lparr>archive_slot := a'\<rparr>"
    using assms by (auto simp: cache_dump_def archive_update_of_def split: prod.splits)
  from archive_update_cases [OF u] show ?thesis
    by (simp add: c' archived_def)
qed

lemma spill_cases:
  assumes "spill c = (e, c')"
  shows "archived c' = archived c \<and> swap_slot c' = swap_slot c
       \<and> (reliable (archive_slot c) \<longrightarrow> e = None \<and> reliable (archive_slot c'))
       \<and> entries c' = (if e = None then [] else entries c)"
proof -
  obtain e1 c1 where d: "cache_dump c [] = (e1, c1)"
    by (cases "cache_dump c []") auto
  from cache_dump_all [OF d] assms d show ?thesis
    by (cases e1) (auto simp: spill_def cache_clear_def archived_def)
qed

section \<open>\<open>no_cache\<close> retains nothing\<close>

lemma no_cache_step:
  "hit (state_after (no_cache_wrapper st key computed)) = hit st
   \<and> ((miss (state_after (no_cache_wrapper st key computed)) = miss st + 1
        \<and> load (state_after (no_cache_wrapper st key computed)) = load st)
      \<or> (miss (state_after (no_cache_wrapper st key computed)) = miss st
        \<and> load (state_after (no_cache_wrapper st key computed)) = load st + 1))
   \<and> (\<forall>result st'. no_cache_wrapper st key computed = Inr (result, st') \<longrightarrow>
         entries (cache st') = [])"
  by (auto simp: no_cache_wrapper_def Let_def cache_clear_def cache_setitem_def len_def
      dict_setitem_def split: sum.splits prod.splits option.splits)

lemma no_cache_step_reliable:
  assumes "reliable (archive_slot (cache st))"
  shows "\<exists>result st'. no_cache_wrapper st key computed = Inr (result, st')
           \<and> reliable (archive_slot (cache st'))"
proof -
  define c0 where "c0 = (if archived (cache st) then cache_load (cache st) [key] else cache st)"
  have a0: "archive_slot c0 = archive_slot (cache st)"
    by (simp add: c0_def cache_load_def load_arg_def split: sum.splits)
  show ?thesis
  proof (cases "cache_getitem c0 key")
    case (Inr r)
    then show ?thesis
      using assms a0 unfolding no_cache_wrapper_def c0_def [symmetric]
      by (simp add: Let_def cache_clear_def len_def)
  next
    case (Inl e)
    let ?c1 = "cache_setitem c0 key computed"
    have r1: "reliable (archive_slot ?c1)"
      using assms a0 by (simp add: cache_setitem_def)
    obtain e2 c2 where d: "cache_dump ?c1 [] = (e2, c2)"
      by (cases "cache_dump ?c1 []") auto
    from cache_dump_all [OF d] r1 have "e2 = None" "reliable (archive_slot c2)" by auto
    then show ?thesis
      using Inl d r1 unfolding no_cache_wrapper_def c0_def [symmetric]
      by (simp add: Let_def cache_clear_def)
  qed
qed

lemma no_cache_calls_stats:
  "hit (no_cache_calls st calls) = hit st
   \<and> miss (no_cache_calls st calls) + load (no_cache_calls st calls)
       = miss st + load st + length calls
   \<and> (entries (cache st) = [] \<longrightarrow> reliable (archive_slot (cache st)) \<longrightarrow>
        entries (cache (no_cache_calls st calls)) = [])"
proof (induction calls arbitrary: st)
  case Nil
  show ?case by simp
next
  case (Cons a calls)
  obtain key computed where a: "a = (key, computed)" by (cases a)
  let ?st1 = "state_after (no_cache_wrapper st key computed)"
  have "reliable (archive_slot (cache st)) \<longrightarrow>
          entries (cache ?st1) = [] \<and> reliable (archive_slot (cache ?st1))"
    using no_cache_step_reliable [of st key computed] no_cache_step [of st key computed]
    by auto
  then show ?case
    using Cons.IH [of ?st1] no_cache_step [of st key computed]
    by (auto simp: a)
qed

text \<open>
  C10: whatever the state before it, a call of \<open>no_cache\<close>'s wrapper that returns
  leaves the cache empty; returning or raising, it leaves the hit counter as it was and
  adds one to exactly one of the miss and load counters; and it returns whenever the
  archive's \<open>update\<close> cannot raise. So after any sequence of calls on a new engine, with
  any archive, \<open>info()\<close> reports \<open>hit = 0\<close>, and \<open>miss + load\<close> is the number of
  calls; \<open>size = 0\<close> after each call that returns (the state it starts from being
  arbitrary), and so after the whole sequence when the archive's \<open>update\<close> cannot raise.
\<close>

theorem no_cache_never_retains:
  "(\<forall>result st'. no_cache_wrapper st key computed = Inr (result, st') \<longrightarrow>
      info (Some 0) st' = (hit st, miss st', load st', Some 0, 0))
   \<and> (reliable (archive_slot (cache st)) \<longrightarrow>
        (\<exists>result st'. no_cache_wrapper st key computed = Inr (result, st')))
   \<and> hit (state_after (no_cache_wrapper st key computed)) = hit st
   \<and> ((miss (state_after (no_cache_wrapper st key computed)) = miss st + 1
        \<and> load (state_after (no_cache_wrapper st key computed)) = load st)
      \<or> (miss (state_after (no_cache_wrapper st key computed)) = miss st
        \<and> load (state_after (no_cache_wrapper st key computed)) = load st + 1))
   \<and> hit (no_cache_calls (new_engine a) calls) = 0
   \<and> miss (no_cache_calls (new_engine a) calls) + load (no_cache_calls (new_engine a) calls)
     = length calls
   \<and> (reliable a \<longrightarrow>
        info (Some 0) (no_cache_calls (new_engine a) calls)
          = (0, miss (no_cache_calls (new_engine a) calls),
             load (no_cache_calls (new_engine a) calls), Some 0, 0))"
proof -
  have 1: "\<forall>result st'. no_cache_wrapper st key computed = Inr (result, st') \<longrightarrow>
      info (Some 0) st' = (hit st, miss st', load st', Some 0, 0)"
  proof (intro allI impI)
    fix result st'
    assume w: "no_cache_wrapper st key computed = Inr (result, st')"
    then have "state_after (no_cache_wrapper st key computed) = st'" by simp
    with no_cache_step [of st key computed] w show
      "info (Some 0) st' = (hit st, miss st', load st', Some 0, 0)"
      by (simp add: info_def len_def)
  qed
  have 2: "reliable (archive_slot (cache st)) \<longrightarrow>
        (\<exists>result st'. no_cache_wrapper st key computed = Inr (result, st'))"
    using no_cache_step_reliable [of st key computed] by blast
  show ?thesis
    using 1 2 no_cache_step [of st key computed] no_cache_calls_stats [of "new_engine a" calls]
    by (simp add: info_def len_def new_engine_def new_cache_def)
qed

theorem no_cache_never_retains_witness:
  "info (Some 0) (no_cache_calls (new_engine (Dict_archive [(2::nat, 20::nat)]))
      [(1, 10), (2, 21), (1, 10)]) = (0, 1, 2, Some 0, 0)
   \<and> no_cache_wrapper (new_engine (Dir_archive [] [10])) (1::nat) (10::nat)
     = Inl (OtherError,
         \<lparr>cache = \<lparr>entries = [(1, 10)], archive_slot = Dir_archive [] [10],
                   swap_slot = Null_archive\<rparr>, hit = 0, miss = 1, load = 0\<rparr>)
   \<and> info (Some 0) (state_after (no_cache_wrapper
        \<lparr>cache = \<lparr>entries = [(1::nat, 10::nat)], archive_slot = Dir_archive [] [10],
                   swap_slot = Null_archive\<rparr>, hit = 0, miss = 1, load = 0\<rparr> 1 10))
     = (0, 1, 1, Some 0, 0)"
proof -
  let ?st = "\<lparr>cache = \<lparr>entries = [(1::nat, 10::nat)], archive_slot = Dir_archive [] [10],
                   swap_slot = Null_archive\<rparr>, hit = 0, miss = 1, load = 0\<rparr>"
  have w: "no_cache_wrapper ?st 1 10
     = Inr (10, \<lparr>cache = \<lparr>entries = [], archive_slot = Dir_archive [] [10],
                   swap_slot = Null_archive\<rparr>, hit = 0, miss = 1, load = 1\<rparr>)"
    by (simp add: no_cache_wrapper_def Let_def archived_def cache_load_def load_arg_def
        archive_getitem_def dict_getitem_def cache_getitem_def cache_clear_def len_def)
  have r: "no_cache_wrapper (new_engine (Dir_archive [] [10])) (1::nat) (10::nat)
     = Inl (OtherError, ?st)"
    by (simp add: no_cache_wrapper_def Let_def archived_def cache_load_def load_arg_def
        archive_getitem_def dict_getitem_def cache_getitem_def cache_setitem_def
        dict_setitem_def len_def new_engine_def new_cache_def cache_dump_def
        archive_update_of_def dir_setitem_def)
  show ?thesis
    using no_cache_never_retains [of "new_engine (Dict_archive [(2::nat, 20::nat)])" 1 10
        "Dict_archive [(2::nat, 20::nat)]" "[(1, 10), (2, 21), (1, 10)]"]
      no_cache_never_retains [of ?st 1 10 Null_archive "[]"] w r
    by (simp add: info_def len_def new_engine_def new_cache_def no_cache_wrapper_def Let_def
      archived_def cache_load_def load_arg_def archive_getitem_def dict_getitem_def
      cache_getitem_def cache_setitem_def dict_setitem_def cache_clear_def cache_dump_def
      archive_update_of_def)
qed

section \<open>Statistics of \<open>inf_cache\<close>\<close>







section \<open>Construction with \<open>maxsize = 0\<close>\<close>

text \<open>
  C1: each bounded decorator called with \<open>maxsize = 0\<close> evaluates the name
  \<open>keymep\<close>, which nothing binds, and raises \<open>NameError\<close> before \<open>no_cache\<close> is
  called; no decorator is returned. With \<open>maxsize = None\<close> and with a positive
  \<open>maxsize\<close> the construction succeeds.
\<close>

theorem maxsize_zero_raises:
  "lfu_cache (Some 0) = Inl (NameError ''keymep'')
   \<and> lru_cache (Some 0) = Inl (NameError ''keymep'')
   \<and> mru_cache (Some 0) = Inl (NameError ''keymep'')
   \<and> rr_cache (Some 0) = Inl (NameError ''keymep'')
   \<and> lfu_cache None = Inr Inf_cache \<and> lfu_cache (Some 2) = Inr (Lfu_cache 2)"
  by (simp add: lfu_cache_def lru_cache_def mru_cache_def rr_cache_def parameters_def
      module_globals_def)

section \<open>The victims of \<open>lfu_cache\<close>\<close>

text \<open>
  C3, as stated: with \<open>maxsize = 2\<close>, no archive and counts \<open>A:5, B:1\<close>, the call
  that inserts \<open>C\<close> evicts \<open>B\<close> and leaves \<open>A\<close> and \<open>C\<close> cached. Five calls with
  key 1 and one with key 2 on a new engine give those counts; the call with key 3 then
  deletes the \<open>max(2, 2 // 10) = 2\<close> least used keys, which are 2 and 3 itself: key 3
  is not cached afterwards.
\<close>

theorem lfu_insert_counterexample:
  "lfu_calls 2 (new_lfu Null_archive)
      [(1::nat, 10::nat), (1, 10), (1, 10), (1, 10), (1, 10), (2, 20)]
     = Inr \<lparr>cache = \<lparr>entries = [(1, 10), (2, 20)], archive_slot = Null_archive,
                swap_slot = Null_archive\<rparr>,
            hit = 4, miss = 2, load = 0, use_count = [(1, 5), (2, 1)]\<rparr>
   \<and> lfu_wrapper 2
       \<lparr>cache = \<lparr>entries = [(1::nat, 10::nat), (2, 20)], archive_slot = Null_archive,
                swap_slot = Null_archive\<rparr>,
        hit = 4, miss = 2, load = 0, use_count = [(1, 5), (2, 1)]\<rparr> 3 30
     = Inr (30, \<lparr>cache = \<lparr>entries = [(1, 10)], archive_slot = Null_archive,
                swap_slot = Null_archive\<rparr>,
            hit = 4, miss = 3, load = 0, use_count = [(1, 5)]\<rparr>)
   \<and> \<not> dict_contains (entries \<lparr>entries = [(1::nat, 10::nat)], archive_slot = Null_archive,
                swap_slot = Null_archive\<rparr>) 3"
  by (simp add: new_lfu_def new_cache_def lfu_wrapper_def fetch_def cache_getitem_def
      dict_getitem_def archived_def cache_setitem_def dict_setitem_def counter_add_def
      counter_get_def len_def nsmallest_def cache_delitem_def dict_delitem_def
      dict_contains_def)

text \<open>
  C3, amended: with \<open>maxsize = 2\<close>, no archive, the cache holding exactly \<open>A\<close> and
  \<open>B\<close> (in either order) and the counts \<open>A:5, B:1\<close>, a call with a new key \<open>C\<close>
  computes its value, counts a miss and evicts both \<open>B\<close> and \<open>C\<close>: afterwards \<open>A\<close>
  alone is cached and counted.
\<close>

theorem lfu_insert_evicts_two:
  assumes "a \<noteq> b" "a \<noteq> c" "b \<noteq> c"
    and "entries (cache st) = [(a, va), (b, vb)] \<or> entries (cache st) = [(b, vb), (a, va)]"
    and "use_count st = [(a, 5), (b, 1)] \<or> use_count st = [(b, 1), (a, 5)]"
    and "\<not> archived (cache st)"
  shows "lfu_wrapper 2 st c v
     = Inr (v, st\<lparr>cache := (cache st)\<lparr>entries := [(a, va)]\<rparr>, miss := miss st + 1,
                   use_count := [(a, 5)]\<rparr>)"
  using assms
  by (auto simp: lfu_wrapper_def fetch_def cache_getitem_def Let_def archived_def
      dict_getitem_def cache_setitem_def dict_setitem_def counter_add_def
      counter_get_def len_def nsmallest_def cache_delitem_def dict_delitem_def
      dict_contains_def)

theorem lfu_insert_evicts_two_witness:
  "lfu_wrapper 2
       \<lparr>cache = \<lparr>entries = [(2::nat, 20::nat), (1, 10)], archive_slot = Null_archive,
                swap_slot = Null_archive\<rparr>,
        hit = 4, miss = 2, load = 0, use_count = [(1, 5), (2, 1)]\<rparr> 3 30
     = Inr (30, \<lparr>cache = \<lparr>entries = [(1, 10)], archive_slot = Null_archive,
                swap_slot = Null_archive\<rparr>,
            hit = 4, miss = 3, load = 0, use_count = [(1, 5)]\<rparr>)"
  using lfu_insert_evicts_two [of "1::nat" 2 3
     "\<lparr>cache = \<lparr>entries = [(2::nat, 20::nat), (1, 10)], archive_slot = Null_archive,
                swap_slot = Null_archive\<rparr>,
        hit = 4, miss = 2, load = 0, use_count = [(1, 5), (2, 1)]\<rparr>" 10 20 30]
  by (simp add: archived_def)

section \<open>Compaction of the access history of \<open>lru_cache\<close>\<close>

lemma update_append_new: "k \<notin> fst ` set al \<Longrightarrow> AList.update k v al = al @ [(k, v)]"
  by (induction al) auto

lemma remdups_snoc: "remdups (xs @ [k]) = remdups (filter (\<lambda>x. x \<noteq> k) xs) @ [k]"
  by (induction xs) auto

lemma compact_loop_eq:
  "set kept = fst ` set rc \<Longrightarrow>
   compact_loop pending kept rc
     = (remdups (rev (filter (\<lambda>k. k \<notin> set kept) pending)) @ kept,
        rc @ map (\<lambda>k. (k, 1)) (rev (remdups (rev (filter (\<lambda>k. k \<notin> set kept) pending)))))"
proof (induction pending arbitrary: kept rc)
  case Nil
  show ?case by simp
next
  case (Cons key pending)
  show ?case
  proof (cases "key \<in> set kept")
    case True
    then show ?thesis using Cons.IH [of kept rc] Cons.prems
      by (simp add: dict_contains_def)
  next
    case False
    define ys where "ys = filter (\<lambda>k. k \<notin> set kept) pending"
    have eq: "filter (\<lambda>k. k \<notin> set (key # kept)) pending = filter (\<lambda>x. x \<noteq> key) ys"
      unfolding ys_def by (induction pending) auto
    have s: "set (key # kept) = fst ` set (dict_setitem rc key 1)"
      using Cons.prems by (simp add: dict_setitem_def dom_update)
    have nk: "key \<notin> fst ` set rc" using False Cons.prems by simp
    have step: "compact_loop (key # pending) kept rc
        = compact_loop pending (key # kept) (dict_setitem rc key 1)"
      using nk by (simp add: dict_contains_def)
    have r: "remdups (rev (key # ys)) = remdups (rev (filter (\<lambda>x. x \<noteq> key) ys)) @ [key]"
      by (simp add: remdups_snoc rev_filter)
    have f: "filter (\<lambda>k. k \<notin> set kept) (key # pending) = key # ys"
      using False by (simp add: ys_def)
    show ?thesis
      unfolding step f r Cons.IH [OF s] eq
      using nk by (simp add: dict_setitem_def update_append_new)
  qed
qed

lemma lru_compact_eq:
  "lru_compact maxsize st =
     (if len (queue st) > maxsize * 10 then
        st\<lparr>queue := remdups (queue st),
           refcount := map (\<lambda>k. (k, 1)) (rev (remdups (queue st)))\<rparr>
      else st)"
  using compact_loop_eq [of "[]" "[]" "rev (queue st)"]
  by (simp add: lru_compact_def)

lemma counter_get_ones:
  "counter_get (map (\<lambda>k. (k, 1)) xs) k = (if k \<in> set xs then 1 else 0)"
  by (induction xs) (auto simp: counter_get_def)


lemma last_access_pos: "last_access xs k > 0 \<longleftrightarrow> k \<in> set xs"
  by (induction xs) auto

lemma remdups_by_last_access:
  "sorted_wrt (\<lambda>a b. last_access xs a < last_access xs b) (remdups xs)"
proof (induction xs)
  case Nil
  show ?case by simp
next
  case (Cons x xs)
  have mono: "sorted_wrt (\<lambda>a b. last_access (x # xs) a < last_access (x # xs) b) (remdups xs)"
    using Cons.IH
    by (rule sorted_wrt_mono_rel [rotated]) (auto simp: last_access_pos)
  show ?case
  proof (cases "x \<in> set xs")
    case True
    then show ?thesis using mono by simp
  next
    case False
    then show ?thesis using mono by (auto simp: last_access_pos)
  qed
qed

text \<open>
  C9: when the queue that the access part of a call leaves is longer than
  \<open>maxsize * 10\<close>, the wrapper returns with the queue rebuilt as \<open>remdups\<close> of it
  (each key once, its last occurrence kept): the rebuilt queue has no duplicates, holds
  the same keys, lists them in the order of their most recent access, and the counters
  are exactly 1 for each of these keys and absent (0) for every other key.
\<close>

theorem lru_compaction:
  assumes "lru_access maxsize st key computed = Inr (result, st1)"
    and "len (queue st1) > maxsize * 10"
  shows "lru_wrapper maxsize st key computed
      = Inr (result, st1\<lparr>queue := remdups (queue st1),
                         refcount := map (\<lambda>k. (k, 1)) (rev (remdups (queue st1)))\<rparr>)
    \<and> distinct (remdups (queue st1)) \<and> set (remdups (queue st1)) = set (queue st1)
    \<and> sorted_wrt (\<lambda>a b. last_access (queue st1) a < last_access (queue st1) b)
         (remdups (queue st1))
    \<and> (\<forall>k. counter_get (map (\<lambda>k. (k, 1)) (rev (remdups (queue st1)))) k
          = (if k \<in> set (queue st1) then 1 else 0))"
  using assms
  by (simp add: lru_wrapper_def lru_compact_eq counter_get_ones remdups_by_last_access)


theorem lru_compaction_witness:
  "lru_wrapper 2
     \<lparr>cache = \<lparr>entries = [(1::nat, 10::nat), (2, 20)], archive_slot = Null_archive,
                swap_slot = Null_archive\<rparr>,
      hit = 18, miss = 2, load = 0,
      queue = [1, 2, 2, 1, 1, 1, 1, 1, 1, 1, 1, 1, 1, 1, 1, 1, 1, 1, 1, 2],
      refcount = [(1, 17), (2, 3)]\<rparr> 1 11
   = Inr (10,
     \<lparr>cache = \<lparr>entries = [(1::nat, 10::nat), (2, 20)], archive_slot = Null_archive,
                swap_slot = Null_archive\<rparr>,
      hit = 19, miss = 2, load = 0, queue = [2, 1], refcount = [(1, 1), (2, 1)]\<rparr>)"
proof -
  let ?st = "\<lparr>cache = \<lparr>entries = [(1::nat, 10::nat), (2, 20)], archive_slot = Null_archive,
                swap_slot = Null_archive\<rparr>,
      hit = 18, miss = 2, load = 0,
      queue = [1, 2, 2, 1, 1, 1, 1, 1, 1, 1, 1, 1, 1, 1, 1, 1, 1, 1, 1, 2],
      refcount = [(1, 17), (2, 3)]\<rparr>"
  let ?st1 = "\<lparr>cache = \<lparr>entries = [(1::nat, 10::nat), (2, 20)], archive_slot = Null_archive,
                swap_slot = Null_archive\<rparr>,
      hit = 19, miss = 2, load = 0,
      queue = [1, 2, 2, 1, 1, 1, 1, 1, 1, 1, 1, 1, 1, 1, 1, 1, 1, 1, 1, 2, 1],
      refcount = [(1, 18), (2, 3)]\<rparr>"
  have a: "lru_access 2 ?st 1 11 = Inr (10, ?st1)"
    by (simp add: lru_access_def fetch_def cache_getitem_def dict_getitem_def counter_add_def
        counter_get_def dict_setitem_def)
  have b: "len (queue ?st1) > 2 * 10"
    by (simp add: len_def)
  have r: "remdups (queue ?st1) = [2, 1]"
    by simp
  show ?thesis
    using conjunct1 [OF lru_compaction [OF a b]] unfolding r by simp
qed

section \<open>The capacity bound of the bounded decorators\<close>

lemma fetch_cases:
  assumes "fetch c key computed = (oc, result, c1)"
  shows "(oc = HIT \<and> c1 = c \<and> key \<in> fst ` set (entries c))
       \<or> (oc \<noteq> HIT \<and> key \<notin> fst ` set (entries c)
          \<and> c1 = c\<lparr>entries := entries c @ [(key, result)]\<rparr>)"
proof (cases "map_of (entries c) key")
  case None
  then have nk: "key \<notin> fst ` set (entries c)"
    by (simp add: map_of_eq_None_iff)
  show ?thesis
    using assms None nk
    by (auto simp: fetch_def cache_getitem_def dict_getitem_def cache_load_def load_arg_def
        archive_getitem_def cache_setitem_def dict_setitem_def update_append_new
        AList.update_conv' Let_def split: option.splits if_splits)
next
  case (Some v)
  then have "key \<in> fst ` set (entries c)"
    by (force dest: map_of_SomeD)
  then show ?thesis
    using assms Some by (simp add: fetch_def cache_getitem_def dict_getitem_def)
qed

lemma count_fields [simp]:
  "cache (count oc st) = cache st"
  by (cases oc) simp_all

lemma len_simps [simp]: "len [] = 0" "len (xs @ [x]) = len xs + 1"
  by (simp_all add: len_def)

lemma delete_length_less:
  "k \<in> fst ` set al \<Longrightarrow> length (AList.delete k al) < length al"
proof (induction al)
  case Nil
  then show ?case by simp
next
  case (Cons p al)
  then show ?case
    using length_delete_le [of k al] by (cases "fst p = k") (auto simp: less_Suc_eq_le)
qed

lemma rr_step:
  assumes "1 \<le> m" "rr_inv m st"
  shows "case rr_wrapper m st key v r of
           Inl (e, st') \<Rightarrow> \<not> reliable (archive_slot (cache st))
         | Inr (result, st') \<Rightarrow>
             rr_inv m st'
             \<and> (reliable (archive_slot (cache st)) \<longrightarrow> reliable (archive_slot (cache st')))"
proof -
  obtain oc result c1 where f: "fetch (cache st) key v = (oc, result, c1)"
    by (cases "fetch (cache st) key v") auto
  from fetch_cases [OF f] show ?thesis
  proof
    assume "oc = HIT \<and> c1 = cache st \<and> key \<in> fst ` set (entries (cache st))"
    then show ?thesis using assms f by (simp add: rr_wrapper_def rr_inv_def)
  next
    assume h: "oc \<noteq> HIT \<and> key \<notin> fst ` set (entries (cache st))
          \<and> c1 = (cache st)\<lparr>entries := entries (cache st) @ [(key, result)]\<rparr>"
    let ?es = "entries (cache st) @ [(key, result)]"
    have d: "distinct (map fst ?es)" using h assms by (simp add: rr_inv_def)
    show ?thesis
    proof (cases "len ?es > m")
      case False
      then show ?thesis using assms f h d by (simp add: rr_wrapper_def rr_inv_def)
    next
      case True
      show ?thesis
      proof (cases "archived c1")
        case True
        obtain e c2 where sp: "spill c1 = (e, c2)" by (cases "spill c1") auto
        have a1: "archive_slot c1 = archive_slot (cache st)" using h by simp
        from spill_cases [OF sp] a1 show ?thesis using assms f h \<open>len ?es > m\<close> True sp
          by (cases e) (auto simp: rr_wrapper_def rr_inv_def)
      next
        case False
        let ?k = "map fst ?es ! (r mod length (map fst ?es))"
        have kin: "?k \<in> fst ` set ?es"
          by (metis (no_types, lifting) length_map length_greater_0_conv list.map_disc_iff
              mod_less_divisor nth_mem set_map snoc_eq_iff_butlast)
        have l: "length (AList.delete ?k ?es) < length ?es"
          using kin by (rule delete_length_less)
        have "len (AList.delete ?k ?es) \<le> m"
          using l assms(2) h by (simp add: rr_inv_def len_def)
        moreover have "distinct (map fst (AList.delete ?k ?es))"
          using d by (rule distinct_delete)
        ultimately show ?thesis
          using assms f h \<open>len ?es > m\<close> False kin
          by (simp add: rr_wrapper_def rr_inv_def choice_def cache_delitem_def
              dict_delitem_def dict_contains_def)
      qed
    qed
  qed
qed


lemma count_use_count [simp]: "use_count (count oc st) = use_count st"
  by (cases oc) simp_all

lemma delete_as_filter: "AList.delete k al = filter (\<lambda>p. fst p \<noteq> k) al"
  by (induction al) auto

lemma keys_delete: "fst ` set (AList.delete k al) = fst ` set al - {k}"
  by (induction al) auto

lemma keys_filter_out:
  "fst ` set (filter (\<lambda>p. fst p \<notin> V) al) = fst ` set al - V"
  by (induction al) auto

lemma lfu_purge_ok:
  assumes "distinct vs"
    and "set vs \<subseteq> fst ` set (entries (cache st))"
    and "fst ` set (use_count st) = fst ` set (entries (cache st))"
  shows "\<exists>st'. lfu_purge vs st = Inr st'
      \<and> entries (cache st') = filter (\<lambda>p. fst p \<notin> set vs) (entries (cache st))
      \<and> use_count st' = filter (\<lambda>p. fst p \<notin> set vs) (use_count st)
      \<and> archive_slot (cache st') = archive_slot (cache st)"
  using assms
proof (induction vs arbitrary: st)
  case Nil
  then show ?case by simp
next
  case (Cons k ks)
  let ?st1 = "st\<lparr>cache := (cache st)\<lparr>entries := AList.delete k (entries (cache st))\<rparr>,
                 use_count := AList.delete k (use_count st)\<rparr>"
  have kin: "k \<in> fst ` set (entries (cache st))" "k \<in> fst ` set (use_count st)"
    using Cons.prems by auto
  have step: "lfu_purge (k # ks) st = lfu_purge ks ?st1"
    using kin by (simp add: cache_delitem_def dict_delitem_def dict_contains_def)
  have "\<exists>st'. lfu_purge ks ?st1 = Inr st'
      \<and> entries (cache st') = filter (\<lambda>p. fst p \<notin> set ks) (entries (cache ?st1))
      \<and> use_count st' = filter (\<lambda>p. fst p \<notin> set ks) (use_count ?st1)
      \<and> archive_slot (cache st') = archive_slot (cache ?st1)"
  proof (rule Cons.IH)
    show "distinct ks" using Cons.prems by simp
    show "set ks \<subseteq> fst ` set (entries (cache ?st1))"
      using Cons.prems by (auto simp: keys_delete)
    show "fst ` set (use_count ?st1) = fst ` set (entries (cache ?st1))"
      using Cons.prems(3) by (simp add: keys_delete)
  qed
  then show ?case
    unfolding step by (auto simp: delete_as_filter conj_commute)
qed

lemma nsmallest_victims:
  assumes "distinct (map fst uc)"
  shows "distinct (map fst (nsmallest n snd uc))"
    and "set (map fst (nsmallest n snd uc)) \<subseteq> fst ` set uc"
    and "0 < n \<Longrightarrow> uc \<noteq> [] \<Longrightarrow> map fst (nsmallest n snd uc) \<noteq> []"
proof -
  have "distinct (map fst (sort_key snd uc))"
    using assms by (simp add: distinct_map)
  then show "distinct (map fst (nsmallest n snd uc))"
    unfolding nsmallest_def by (simp add: take_map [symmetric] distinct_take)
  show "set (map fst (nsmallest n snd uc)) \<subseteq> fst ` set uc"
    unfolding nsmallest_def using set_take_subset [of "nat n" "sort_key snd uc"] by auto
  show "map fst (nsmallest n snd uc) \<noteq> []" if "0 < n" "uc \<noteq> []"
  proof -
    have "sort_key snd uc \<noteq> []"
      using that(2) length_sort [of snd uc] by (metis length_0_conv)
    then show ?thesis
      unfolding nsmallest_def using that(1) by (cases "sort_key snd uc") (auto simp: take_Cons')
  qed
qed

lemma lfu_step:
  assumes "1 \<le> m" "lfu_inv m st"
  shows "case lfu_wrapper m st key v of
           Inl (e, st') \<Rightarrow> \<not> reliable (archive_slot (cache st))
         | Inr (result, st') \<Rightarrow>
             lfu_inv m st'
             \<and> (reliable (archive_slot (cache st)) \<longrightarrow> reliable (archive_slot (cache st')))"
proof -
  obtain oc result c1 where f: "fetch (cache st) key v = (oc, result, c1)"
    by (cases "fetch (cache st) key v") auto
  let ?uc = "counter_add (use_count st) key 1"
  have ucd: "distinct (map fst ?uc)"
    using assms(2) by (simp add: lfu_inv_def counter_add_def dict_setitem_def distinct_update)
  have uck: "fst ` set ?uc = insert key (fst ` set (use_count st))"
    by (simp add: counter_add_def dict_setitem_def dom_update)
  from fetch_cases [OF f] show ?thesis
  proof
    assume "oc = HIT \<and> c1 = cache st \<and> key \<in> fst ` set (entries (cache st))"
    then show ?thesis using assms f ucd uck
      by (auto simp: lfu_wrapper_def lfu_inv_def)
  next
    assume h: "oc \<noteq> HIT \<and> key \<notin> fst ` set (entries (cache st))
          \<and> c1 = (cache st)\<lparr>entries := entries (cache st) @ [(key, result)]\<rparr>"
    let ?es = "entries (cache st) @ [(key, result)]"
    let ?st1 = "count oc (st\<lparr>cache := c1, use_count := ?uc\<rparr>)"
    have d: "distinct (map fst ?es)" using h assms by (simp add: lfu_inv_def)
    have ks: "fst ` set ?uc = fst ` set ?es"
      using uck assms(2) by (auto simp: lfu_inv_def)
    have inv1: "len ?es \<le> m \<Longrightarrow> lfu_inv m ?st1"
      using d ks ucd h by (simp add: lfu_inv_def)
    show ?thesis
    proof (cases "len ?es > m")
      case False
      then show ?thesis using f h inv1 by (simp add: lfu_wrapper_def)
    next
      case True
      show ?thesis
      proof (cases "archived c1")
        case True
        obtain e c2 where sp: "spill c1 = (e, c2)" by (cases "spill c1") auto
        have a1: "archive_slot c1 = archive_slot (cache st)" using h by simp
        from spill_cases [OF sp] a1 show ?thesis using assms f h \<open>len ?es > m\<close> True sp
          by (cases e) (auto simp: lfu_wrapper_def lfu_inv_def)
      next
        case False
        let ?vs = "map fst (nsmallest (max 2 (m div 10)) snd ?uc)"
        have ne: "?uc \<noteq> []" by (simp add: counter_add_def dict_setitem_def)
        have v1: "distinct ?vs" and v2: "set ?vs \<subseteq> fst ` set ?uc" and v3: "?vs \<noteq> []"
          using nsmallest_victims [OF ucd, of "max 2 (m div 10)"] ne by auto
        have "\<exists>st'. lfu_purge ?vs ?st1 = Inr st'
            \<and> entries (cache st') = filter (\<lambda>p. fst p \<notin> set ?vs) (entries (cache ?st1))
            \<and> use_count st' = filter (\<lambda>p. fst p \<notin> set ?vs) (use_count ?st1)
            \<and> archive_slot (cache st') = archive_slot (cache ?st1)"
          using v1 v2 ks h by (intro lfu_purge_ok) simp_all
        then obtain st' where p: "lfu_purge ?vs ?st1 = Inr st'"
            "entries (cache st') = filter (\<lambda>p. fst p \<notin> set ?vs) ?es"
            "use_count st' = filter (\<lambda>p. fst p \<notin> set ?vs) ?uc"
            "archive_slot (cache st') = archive_slot (cache st)"
          using h by auto
        obtain x where x: "x \<in> set ?vs" using v3 by (cases ?vs) auto
        have "x \<in> fst ` set ?es" using x v2 ks by blast
        then obtain e where e: "e \<in> set ?es" "fst e = x" by (metis imageE)
        have "length (filter (\<lambda>p. fst p \<notin> set ?vs) ?es) < length ?es"
          using e x by (intro length_filter_less [where x = e]) auto
        then have l: "len (entries (cache st')) \<le> m"
          using assms(2) p(2) by (simp add: lfu_inv_def len_def)
        have k': "fst ` set (use_count st') = fst ` set (entries (cache st'))"
          unfolding p(2) p(3) keys_filter_out ks by (rule refl)
        have d': "distinct (map fst (entries (cache st')))"
          unfolding p(2) using d by (rule distinct_map_filter)
        have ucd': "distinct (map fst (use_count st'))"
          unfolding p(3) using ucd by (rule distinct_map_filter)
        have "lfu_inv m st'"
          using l d' ucd' k' by (simp add: lfu_inv_def)
        then show ?thesis
          using f h \<open>len ?es > m\<close> False p(1) p(4) by (simp add: lfu_wrapper_def)
      qed
    qed
  qed
qed


lemma count_mru_queue [simp]: "mru_queue (count oc st) = mru_queue st"
  by (cases oc) simp_all

lemma set_butlast_distinct:
  "distinct q \<Longrightarrow> q \<noteq> [] \<Longrightarrow> set (butlast q) = set q - {last q}"
  by (induction q rule: rev_induct) auto

lemma set_remove1_snoc: "x \<in> set q \<Longrightarrow> set (remove1 x q @ [x]) = set q"
  by (induction q) auto

lemma mru_step:
  assumes "1 \<le> m" "mru_inv m st"
  shows "case mru_wrapper m st key v of
           Inl (e, st') \<Rightarrow> \<not> reliable (archive_slot (cache st))
         | Inr (result, st') \<Rightarrow>
             mru_inv m st'
             \<and> (reliable (archive_slot (cache st)) \<longrightarrow> reliable (archive_slot (cache st')))"
proof -
  obtain oc result c1 where f: "fetch (cache st) key v = (oc, result, c1)"
    by (cases "fetch (cache st) key v") auto
  let ?q = "mru_queue st"
  let ?ks = "fst ` set (entries (cache st))"
  have i: "distinct (map fst (entries (cache st)))" "?ks \<subseteq> set ?q"
      "len (entries (cache st)) \<le> m"
    and na: "\<not> archived (cache st) \<Longrightarrow> distinct ?q \<and> set ?q \<subseteq> ?ks"
    using assms(2) by (auto simp: mru_inv_def)
  from fetch_cases [OF f] show ?thesis
  proof
    assume h: "oc = HIT \<and> c1 = cache st \<and> key \<in> ?ks"
    then have kq: "key \<in> set ?q" using i(2) by auto
    define q' where "q' = remove1 key ?q @ [key]"
    have s: "set q' = set ?q"
      unfolding q'_def using kq by (rule set_remove1_snoc)
    have dq: "distinct q'" if "distinct ?q"
      unfolding q'_def using that by simp
    have "mru_inv m (count HIT (st\<lparr>mru_queue := q'\<rparr>))"
      using i na s dq by (auto simp: mru_inv_def)
    then have "mru_inv m (count HIT (st\<lparr>mru_queue := remove1 key ?q @ [key]\<rparr>))"
      by (simp only: q'_def)
    then show ?thesis using f h kq by (simp add: mru_wrapper_def)
  next
    assume h: "oc \<noteq> HIT \<and> key \<notin> ?ks
          \<and> c1 = (cache st)\<lparr>entries := entries (cache st) @ [(key, result)]\<rparr>"
    let ?es = "entries (cache st) @ [(key, result)]"
    have d: "distinct (map fst ?es)" using h i by simp
    have ar: "archived c1 = archived (cache st)" using h by (simp add: archived_def)
    show ?thesis
    proof (cases "len ?es > m")
      case False
      have "mru_inv m (count oc (st\<lparr>cache := c1\<rparr>)\<lparr>mru_queue := ?q @ [key]\<rparr>)"
        using False d h i na ar by (auto simp: mru_inv_def)
      then show ?thesis using f h False by (simp add: mru_wrapper_def Let_def)
    next
      case True
      show ?thesis
      proof (cases "archived c1")
        case True
        obtain e c2 where sp: "spill c1 = (e, c2)" by (cases "spill c1") auto
        have a1: "archive_slot c1 = archive_slot (cache st)" using h by simp
        from spill_cases [OF sp] a1 show ?thesis using assms f h \<open>len ?es > m\<close> True sp
          by (cases e) (auto simp: mru_wrapper_def mru_inv_def Let_def)
      next
        case False
        then have nq: "distinct ?q" "set ?q \<subseteq> ?ks" using na ar by auto
        have "entries (cache st) \<noteq> []"
          using True assms(1) by (auto simp: len_def)
        then have qne: "?q \<noteq> []" using i(2) by (cases "entries (cache st)") auto
        let ?x = "last ?q"
        have xin: "?x \<in> ?ks" using qne nq(2) last_in_set by blast
        have xk: "?x \<noteq> key" using xin h by auto
        let ?es' = "AList.delete ?x ?es"
        have l: "length ?es' < length ?es"
          using xin by (intro delete_length_less) auto
        have "len ?es' \<le> m" using l i(3) by (simp add: len_def)
        moreover have "distinct (map fst ?es')" using d by (rule distinct_delete)
        moreover have "fst ` set ?es' = insert key ?ks - {?x}"
          by (simp add: keys_delete)
        moreover have "set (butlast ?q @ [key]) = insert key (set ?q - {?x})"
          using set_butlast_distinct [OF nq(1) qne] by simp
        moreover have "set ?q = ?ks" using nq(2) i(2) by auto
        moreover have "distinct (butlast ?q @ [key])"
          using nq h by (auto simp: distinct_butlast dest: in_set_butlastD)
        moreover note xk
        ultimately have "mru_inv m (count oc (st\<lparr>cache := c1\<rparr>)
            \<lparr>cache := c1\<lparr>entries := ?es'\<rparr>, mru_queue := butlast ?q @ [key]\<rparr>)"
          by (auto simp: mru_inv_def)
        then show ?thesis
          using f h \<open>len ?es > m\<close> False qne xin
          by (simp add: mru_wrapper_def Let_def cache_delitem_def dict_delitem_def
              dict_contains_def)
      qed
    qed
  qed
qed


lemma count_lru_fields [simp]:
  "queue (count oc st) = queue st" "refcount (count oc st) = refcount st"
  by (cases oc; simp)+

lemma counter_get_add:
  "counter_get (counter_add rc k n) k' = (if k' = k then counter_get rc k + n else counter_get rc k')"
  by (simp add: counter_get_def counter_add_def dict_setitem_def AList.update_conv')

lemma counter_get_delete:
  "counter_get (AList.delete k rc) k' = (if k' = k then 0 else counter_get rc k')"
  by (simp add: counter_get_def AList.delete_conv')

lemma counter_add_key: "k \<in> fst ` set (counter_add rc k n)"
  by (simp add: counter_add_def dict_setitem_def dom_update)

lemma counter_add_keys_mono: "fst ` set rc \<subseteq> fst ` set (counter_add rc k n)"
  by (auto simp: counter_add_def dict_setitem_def dom_update)

lemma lru_popleft_ok:
  assumes "\<forall>k. counter_get rc k = int (count_list q k)" "q \<noteq> []"
  shows "\<exists>k q' rc1. lru_popleft q rc = Inr (k, q', rc1) \<and> k \<in> set q \<and> k \<notin> set q'
      \<and> set q' \<subseteq> set q \<and> (\<forall>k'. counter_get rc1 k' = int (count_list q' k'))
      \<and> k \<in> fst ` set rc1"
  using assms
proof (induction q arbitrary: rc)
  case Nil
  then show ?case by simp
next
  case (Cons a q)
  let ?rc1 = "counter_add rc a (- 1)"
  have c: "\<forall>k. counter_get ?rc1 k = int (count_list q k)"
    using Cons.prems(1) by (auto simp: counter_get_add)
  show ?case
  proof (cases "counter_get ?rc1 a \<noteq> 0")
    case True
    then have "count_list q a \<noteq> 0" using c by auto
    then have qne: "q \<noteq> []" by auto
    from Cons.IH [OF c qne] obtain k q' rc1 where
      r: "lru_popleft q ?rc1 = Inr (k, q', rc1)" "k \<in> set q" "k \<notin> set q'" "set q' \<subseteq> set q"
        "\<forall>k'. counter_get rc1 k' = int (count_list q' k')" "k \<in> fst ` set rc1"
      by blast
    have "lru_popleft (a # q) rc = Inr (k, q', rc1)"
      using True r(1) by (simp add: Let_def)
    then show ?thesis using r by auto
  next
    case False
    then have z: "count_list q a = 0" using c by auto
    then have "a \<notin> set q" by (simp add: count_list_0_iff)
    moreover have "lru_popleft (a # q) rc = Inr (a, q, ?rc1)"
      using False by (simp add: Let_def)
    ultimately show ?thesis using c counter_add_key [of a rc "- 1"] by auto
  qed
qed

lemma lru_access_step:
  assumes "1 \<le> m" "lru_inv m st"
  shows "case lru_access m st key v of
           Inl (e, st') \<Rightarrow> \<not> reliable (archive_slot (cache st))
         | Inr (result, st') \<Rightarrow>
             lru_inv m st'
             \<and> (reliable (archive_slot (cache st)) \<longrightarrow> reliable (archive_slot (cache st')))"
proof -
  obtain oc result c1 where f: "fetch (cache st) key v = (oc, result, c1)"
    by (cases "fetch (cache st) key v") auto
  let ?q = "queue st @ [key]"
  let ?rc = "counter_add (refcount st) key 1"
  let ?ks = "fst ` set (entries (cache st))"
  have i: "distinct (map fst (entries (cache st)))" "set (queue st) \<subseteq> ?ks"
      "\<forall>k. counter_get (refcount st) k = int (count_list (queue st) k)"
      "len (entries (cache st)) \<le> m"
    using assms(2) by (auto simp: lru_inv_def)
  have cnt: "\<forall>k. counter_get ?rc k = int (count_list ?q k)"
    using i(3) by (simp add: counter_get_add)
  from fetch_cases [OF f] show ?thesis
  proof
    assume h: "oc = HIT \<and> c1 = cache st \<and> key \<in> ?ks"
    have "lru_inv m (count oc (st\<lparr>cache := c1, queue := ?q, refcount := ?rc\<rparr>))"
      using h i cnt by (simp add: lru_inv_def)
    then show ?thesis using f h by (simp add: lru_access_def)
  next
    assume h: "oc \<noteq> HIT \<and> key \<notin> ?ks
          \<and> c1 = (cache st)\<lparr>entries := entries (cache st) @ [(key, result)]\<rparr>"
    let ?es = "entries (cache st) @ [(key, result)]"
    let ?st1 = "count oc (st\<lparr>cache := c1, queue := ?q, refcount := ?rc\<rparr>)"
    have d: "distinct (map fst ?es)" using h i by simp
    have qs: "set ?q \<subseteq> fst ` set ?es" using i(2) by auto
    show ?thesis
    proof (cases "len ?es > m")
      case False
      have "lru_inv m ?st1"
        using False d h i cnt by (auto simp: lru_inv_def)
      then show ?thesis using f h False by (simp add: lru_access_def)
    next
      case True
      show ?thesis
      proof (cases "archived c1")
        case True
        obtain e c2 where sp: "spill c1 = (e, c2)" by (cases "spill c1") auto
        have a1: "archive_slot c1 = archive_slot (cache st)" using h by simp
        from spill_cases [OF sp] a1 show ?thesis using assms f h \<open>len ?es > m\<close> True sp
          by (cases e) (auto simp: lru_access_def lru_inv_def counter_get_def)
      next
        case False
        have "?q \<noteq> []" by simp
        from lru_popleft_ok [OF cnt this] obtain k q' rc1 where
          r: "lru_popleft ?q ?rc = Inr (k, q', rc1)" "k \<in> set ?q" "k \<notin> set q'"
            "set q' \<subseteq> set ?q"
            "\<forall>k'. counter_get rc1 k' = int (count_list q' k')" "k \<in> fst ` set rc1"
          by blast
        have kin: "k \<in> fst ` set ?es" using r(2) qs by blast
        let ?es' = "AList.delete k ?es"
        have l: "length ?es' < length ?es"
          using kin by (rule delete_length_less)
        have "len ?es' \<le> m" using l i(4) by (simp add: len_def)
        moreover have "distinct (map fst ?es')" using d by (rule distinct_delete)
        moreover have "set q' \<subseteq> fst ` set ?es'"
          using r(3) r(4) qs unfolding keys_delete by blast
        moreover have "\<forall>k'. counter_get (AList.delete k rc1) k' = int (count_list q' k')"
          using r(5) r(3) by (simp add: counter_get_delete count_list_0_iff)
        ultimately have "lru_inv m (?st1\<lparr>cache := c1\<lparr>entries := ?es'\<rparr>, queue := q',
            refcount := AList.delete k rc1\<rparr>)"
          by (simp add: lru_inv_def)
        then show ?thesis
          using f h \<open>len ?es > m\<close> False r(1) r(6) kin
          by (simp add: lru_access_def cache_delitem_def dict_delitem_def dict_contains_def)
      qed
    qed
  qed
qed

lemma count_list_distinct:
  "distinct xs \<Longrightarrow> count_list xs k = (if k \<in> set xs then 1 else 0)"
  by (induction xs) auto

lemma lru_compact_inv:
  assumes "lru_inv m st"
  shows "lru_inv m (lru_compact m st)"
proof -
  have "counter_get (map (\<lambda>k. (k, 1)) (rev (remdups (queue st)))) k
      = int (count_list (remdups (queue st)) k)" for k
    by (simp add: counter_get_ones count_list_distinct)
  then show ?thesis
    using assms by (simp add: lru_compact_eq lru_inv_def)
qed

lemma lru_compact_archive [simp]: "cache (lru_compact m st) = cache st"
  by (simp add: lru_compact_def split: prod.splits)

lemma lru_step:
  assumes "1 \<le> m" "lru_inv m st"
  shows "case lru_wrapper m st key v of
           Inl (e, st') \<Rightarrow> \<not> reliable (archive_slot (cache st))
         | Inr (result, st') \<Rightarrow>
             lru_inv m st'
             \<and> (reliable (archive_slot (cache st)) \<longrightarrow> reliable (archive_slot (cache st')))"
  using lru_access_step [OF assms, of key v] lru_compact_inv
  by (auto simp: lru_wrapper_def split: sum.splits)



lemma lfu_calls_inv:
  assumes "1 \<le> m" "lfu_inv m st"
  shows "case lfu_calls m st calls of
           Inl (e, st') \<Rightarrow> \<not> reliable (archive_slot (cache st))
         | Inr st' \<Rightarrow> lfu_inv m st'"
  using assms
proof (induction calls arbitrary: st)
  case Nil
  then show ?case by simp
next
  case (Cons a calls)
  obtain key v where a: "a = (key, v)" by (cases a)
  show ?case
  proof (cases "lfu_wrapper m st key v")
    case (Inl x)
    with lfu_step [OF Cons.prems, of key v] show ?thesis by (cases x) (simp add: a)
  next
    case (Inr y)
    obtain result st1 where y: "y = (result, st1)" by (cases y)
    from lfu_step [OF Cons.prems, of key v] Inr y have s: "lfu_inv m st1"
        "reliable (archive_slot (cache st)) \<longrightarrow> reliable (archive_slot (cache st1))"
      by auto
    from Cons.IH [OF Cons.prems(1) s(1)] s(2) show ?thesis
      by (auto simp: a Inr y split: sum.splits)
  qed
qed

lemma lru_calls_inv:
  assumes "1 \<le> m" "lru_inv m st"
  shows "case lru_calls m st calls of
           Inl (e, st') \<Rightarrow> \<not> reliable (archive_slot (cache st))
         | Inr st' \<Rightarrow> lru_inv m st'"
  using assms
proof (induction calls arbitrary: st)
  case Nil
  then show ?case by simp
next
  case (Cons a calls)
  obtain key v where a: "a = (key, v)" by (cases a)
  show ?case
  proof (cases "lru_wrapper m st key v")
    case (Inl x)
    with lru_step [OF Cons.prems, of key v] show ?thesis by (cases x) (simp add: a)
  next
    case (Inr y)
    obtain result st1 where y: "y = (result, st1)" by (cases y)
    from lru_step [OF Cons.prems, of key v] Inr y have s: "lru_inv m st1"
        "reliable (archive_slot (cache st)) \<longrightarrow> reliable (archive_slot (cache st1))"
      by auto
    from Cons.IH [OF Cons.prems(1) s(1)] s(2) show ?thesis
      by (auto simp: a Inr y split: sum.splits)
  qed
qed

lemma mru_calls_inv:
  assumes "1 \<le> m" "mru_inv m st"
  shows "case mru_calls m st calls of
           Inl (e, st') \<Rightarrow> \<not> reliable (archive_slot (cache st))
         | Inr st' \<Rightarrow> mru_inv m st'"
  using assms
proof (induction calls arbitrary: st)
  case Nil
  then show ?case by simp
next
  case (Cons a calls)
  obtain key v where a: "a = (key, v)" by (cases a)
  show ?case
  proof (cases "mru_wrapper m st key v")
    case (Inl x)
    with mru_step [OF Cons.prems, of key v] show ?thesis by (cases x) (simp add: a)
  next
    case (Inr y)
    obtain result st1 where y: "y = (result, st1)" by (cases y)
    from mru_step [OF Cons.prems, of key v] Inr y have s: "mru_inv m st1"
        "reliable (archive_slot (cache st)) \<longrightarrow> reliable (archive_slot (cache st1))"
      by auto
    from Cons.IH [OF Cons.prems(1) s(1)] s(2) show ?thesis
      by (auto simp: a Inr y split: sum.splits)
  qed
qed

lemma rr_calls_inv:
  assumes "1 \<le> m" "rr_inv m st"
  shows "case rr_calls m st calls of
           Inl (e, st') \<Rightarrow> \<not> reliable (archive_slot (cache st))
         | Inr st' \<Rightarrow> rr_inv m st'"
  using assms
proof (induction calls arbitrary: st)
  case Nil
  then show ?case by simp
next
  case (Cons a calls)
  obtain key v r where a: "a = (key, v, r)" by (cases a)
  show ?case
  proof (cases "rr_wrapper m st key v r")
    case (Inl x)
    with rr_step [OF Cons.prems, of key v r] show ?thesis by (cases x) (simp add: a)
  next
    case (Inr y)
    obtain result st1 where y: "y = (result, st1)" by (cases y)
    from rr_step [OF Cons.prems, of key v r] Inr y have s: "rr_inv m st1"
        "reliable (archive_slot (cache st)) \<longrightarrow> reliable (archive_slot (cache st1))"
      by auto
    from Cons.IH [OF Cons.prems(1) s(1)] s(2) show ?thesis
      by (auto simp: a Inr y split: sum.splits)
  qed
qed

text \<open>
  C5, as stated: with or without an archive, after each call that returns the cache holds
  at most \<open>maxsize\<close> entries. It fails with a \<open>dir_archive\<close> whose serializer cannot
  write the value 20, at \<open>maxsize = 1\<close>: the call with key 1 returns; the call with key
  2 computes 20, stores it in the cache and, the cache being over its size, dumps it to the
  archive, where the exception of the serializer leaves \<open>dump\<close> and the wrapper before
  \<open>cache.clear()\<close>; the next call with key 1 is a hit and returns with both entries in
  the cache. So it is for each of the four wrappers.
\<close>

theorem capacity_counterexample:
  "lfu_wrapper 1 (new_lfu (Dir_archive [] [20])) (1::nat) (10::nat)
     = Inr (10, \<lparr>cache = \<lparr>entries = [(1, 10)], archive_slot = Dir_archive [] [20],
                          swap_slot = Null_archive\<rparr>,
                 hit = 0, miss = 1, load = 0, use_count = [(1, 1)]\<rparr>)
   \<and> lfu_wrapper 1
        \<lparr>cache = \<lparr>entries = [(1::nat, 10::nat)], archive_slot = Dir_archive [] [20],
                  swap_slot = Null_archive\<rparr>,
         hit = 0, miss = 1, load = 0, use_count = [(1, 1)]\<rparr> 2 20
     = Inl (OtherError,
            \<lparr>cache = \<lparr>entries = [(1, 10), (2, 20)],
                      archive_slot = Dir_archive [(1, 10)] [20], swap_slot = Null_archive\<rparr>,
             hit = 0, miss = 2, load = 0, use_count = [(1, 1), (2, 1)]\<rparr>)
   \<and> lfu_wrapper 1
        \<lparr>cache = \<lparr>entries = [(1::nat, 10::nat), (2, 20)],
                  archive_slot = Dir_archive [(1, 10)] [20], swap_slot = Null_archive\<rparr>,
         hit = 0, miss = 2, load = 0, use_count = [(1, 1), (2, 1)]\<rparr> 1 10
     = Inr (10, \<lparr>cache = \<lparr>entries = [(1, 10), (2, 20)],
                          archive_slot = Dir_archive [(1, 10)] [20],
                          swap_slot = Null_archive\<rparr>,
                 hit = 1, miss = 2, load = 0, use_count = [(1, 2), (2, 1)]\<rparr>)
   \<and> len (entries (cache (state_after (lfu_wrapper 1
        \<lparr>cache = \<lparr>entries = [(1::nat, 10::nat), (2, 20)],
                  archive_slot = Dir_archive [(1, 10)] [20], swap_slot = Null_archive\<rparr>,
         hit = 0, miss = 2, load = 0, use_count = [(1, 1), (2, 1)]\<rparr> 1 10)))) > 1
   \<and> lru_wrapper 1 (new_lru (Dir_archive [] [20])) (1::nat) (10::nat)
     = Inr (10, \<lparr>cache = \<lparr>entries = [(1, 10)], archive_slot = Dir_archive [] [20],
                          swap_slot = Null_archive\<rparr>,
                 hit = 0, miss = 1, load = 0, queue = [1], refcount = [(1, 1)]\<rparr>)
   \<and> lru_wrapper 1
        \<lparr>cache = \<lparr>entries = [(1::nat, 10::nat)], archive_slot = Dir_archive [] [20],
                  swap_slot = Null_archive\<rparr>,
         hit = 0, miss = 1, load = 0, queue = [1], refcount = [(1, 1)]\<rparr> 2 20
     = Inl (OtherError,
            \<lparr>cache = \<lparr>entries = [(1, 10), (2, 20)],
                      archive_slot = Dir_archive [(1, 10)] [20], swap_slot = Null_archive\<rparr>,
             hit = 0, miss = 2, load = 0, queue = [1, 2], refcount = [(1, 1), (2, 1)]\<rparr>)
   \<and> lru_wrapper 1
        \<lparr>cache = \<lparr>entries = [(1::nat, 10::nat), (2, 20)],
                  archive_slot = Dir_archive [(1, 10)] [20], swap_slot = Null_archive\<rparr>,
         hit = 0, miss = 2, load = 0, queue = [1, 2], refcount = [(1, 1), (2, 1)]\<rparr> 1 10
     = Inr (10, \<lparr>cache = \<lparr>entries = [(1, 10), (2, 20)],
                          archive_slot = Dir_archive [(1, 10)] [20],
                          swap_slot = Null_archive\<rparr>,
                 hit = 1, miss = 2, load = 0, queue = [1, 2, 1],
                 refcount = [(1, 2), (2, 1)]\<rparr>)
   \<and> mru_wrapper 1 (new_mru (Dir_archive [] [20])) (1::nat) (10::nat)
     = Inr (10, \<lparr>cache = \<lparr>entries = [(1, 10)], archive_slot = Dir_archive [] [20],
                          swap_slot = Null_archive\<rparr>,
                 hit = 0, miss = 1, load = 0, mru_queue = [1]\<rparr>)
   \<and> mru_wrapper 1
        \<lparr>cache = \<lparr>entries = [(1::nat, 10::nat)], archive_slot = Dir_archive [] [20],
                  swap_slot = Null_archive\<rparr>,
         hit = 0, miss = 1, load = 0, mru_queue = [1]\<rparr> 2 20
     = Inl (OtherError,
            \<lparr>cache = \<lparr>entries = [(1, 10), (2, 20)],
                      archive_slot = Dir_archive [(1, 10)] [20], swap_slot = Null_archive\<rparr>,
             hit = 0, miss = 2, load = 0, mru_queue = [1]\<rparr>)
   \<and> mru_wrapper 1
        \<lparr>cache = \<lparr>entries = [(1::nat, 10::nat), (2, 20)],
                  archive_slot = Dir_archive [(1, 10)] [20], swap_slot = Null_archive\<rparr>,
         hit = 0, miss = 2, load = 0, mru_queue = [1]\<rparr> 1 10
     = Inr (10, \<lparr>cache = \<lparr>entries = [(1, 10), (2, 20)],
                          archive_slot = Dir_archive [(1, 10)] [20],
                          swap_slot = Null_archive\<rparr>,
                 hit = 1, miss = 2, load = 0, mru_queue = [1]\<rparr>)
   \<and> rr_wrapper 1 (new_engine (Dir_archive [] [20])) (1::nat) (10::nat) 0
     = Inr (10, \<lparr>cache = \<lparr>entries = [(1, 10)], archive_slot = Dir_archive [] [20],
                          swap_slot = Null_archive\<rparr>,
                 hit = 0, miss = 1, load = 0\<rparr>)
   \<and> rr_wrapper 1
        \<lparr>cache = \<lparr>entries = [(1::nat, 10::nat)], archive_slot = Dir_archive [] [20],
                  swap_slot = Null_archive\<rparr>,
         hit = 0, miss = 1, load = 0\<rparr> 2 20 0
     = Inl (OtherError,
            \<lparr>cache = \<lparr>entries = [(1, 10), (2, 20)],
                      archive_slot = Dir_archive [(1, 10)] [20], swap_slot = Null_archive\<rparr>,
             hit = 0, miss = 2, load = 0\<rparr>)
   \<and> rr_wrapper 1
        \<lparr>cache = \<lparr>entries = [(1::nat, 10::nat), (2, 20)],
                  archive_slot = Dir_archive [(1, 10)] [20], swap_slot = Null_archive\<rparr>,
         hit = 0, miss = 2, load = 0\<rparr> 1 10 0
     = Inr (10, \<lparr>cache = \<lparr>entries = [(1, 10), (2, 20)],
                          archive_slot = Dir_archive [(1, 10)] [20],
                          swap_slot = Null_archive\<rparr>,
                 hit = 1, miss = 2, load = 0\<rparr>)"
  by (simp add: new_lfu_def new_lru_def new_mru_def new_engine_def new_cache_def
      lfu_wrapper_def lru_wrapper_def lru_access_def lru_compact_def mru_wrapper_def
      rr_wrapper_def fetch_def cache_getitem_def dict_getitem_def archived_def cache_load_def
      load_arg_def archive_getitem_def cache_setitem_def dict_setitem_def counter_add_def
      counter_get_def len_def spill_def cache_dump_def archive_update_of_def dir_setitem_def
      Let_def)

text \<open>
  C5, amended: for \<open>maxsize \<ge> 1\<close> and any archive \<open>a\<close>, null or not, after every
  sequence of calls on a new engine of each bounded policy in which every call returns,
  the cache holds at most \<open>maxsize\<close> entries; and when the archive's \<open>update\<close> cannot
  raise (no archive, a \<open>dict_archive\<close>, a \<open>dir_archive\<close> whose serializer can write
  every value) every call of every sequence returns. The sequence is arbitrary, so the
  bound holds after each call of it. For \<open>rr_cache\<close> a call also carries the draw of
  \<open>random.choice\<close>, and the bound holds for every draw.
\<close>

theorem capacity_invariant:
  assumes "1 \<le> maxsize"
  shows "(\<forall>st. lfu_calls maxsize (new_lfu a) calls = Inr st
            \<longrightarrow> len (entries (cache st)) \<le> maxsize)
       \<and> (\<forall>st. lru_calls maxsize (new_lru a) calls = Inr st
            \<longrightarrow> len (entries (cache st)) \<le> maxsize)
       \<and> (\<forall>st. mru_calls maxsize (new_mru a) calls = Inr st
            \<longrightarrow> len (entries (cache st)) \<le> maxsize)
       \<and> (\<forall>st. rr_calls maxsize (new_engine a) rcalls = Inr st
            \<longrightarrow> len (entries (cache st)) \<le> maxsize)
       \<and> (reliable a \<longrightarrow>
            (\<exists>st. lfu_calls maxsize (new_lfu a) calls = Inr st
                \<and> len (entries (cache st)) \<le> maxsize)
          \<and> (\<exists>st. lru_calls maxsize (new_lru a) calls = Inr st
                \<and> len (entries (cache st)) \<le> maxsize)
          \<and> (\<exists>st. mru_calls maxsize (new_mru a) calls = Inr st
                \<and> len (entries (cache st)) \<le> maxsize)
          \<and> (\<exists>st. rr_calls maxsize (new_engine a) rcalls = Inr st
                \<and> len (entries (cache st)) \<le> maxsize))"
proof -
  have "lfu_inv maxsize (new_lfu a)"
    using assms by (simp add: lfu_inv_def new_lfu_def new_cache_def)
  from lfu_calls_inv [OF assms this, of calls]
  have 1: "case lfu_calls maxsize (new_lfu a) calls of
             Inl (e, st) \<Rightarrow> \<not> reliable a
           | Inr st \<Rightarrow> len (entries (cache st)) \<le> maxsize"
    by (auto simp: lfu_inv_def new_lfu_def new_cache_def split: sum.splits)
  have "lru_inv maxsize (new_lru a)"
    using assms by (simp add: lru_inv_def new_lru_def new_cache_def counter_get_def)
  from lru_calls_inv [OF assms this, of calls]
  have 2: "case lru_calls maxsize (new_lru a) calls of
             Inl (e, st) \<Rightarrow> \<not> reliable a
           | Inr st \<Rightarrow> len (entries (cache st)) \<le> maxsize"
    by (auto simp: lru_inv_def new_lru_def new_cache_def split: sum.splits)
  have "mru_inv maxsize (new_mru a)"
    using assms by (simp add: mru_inv_def new_mru_def new_cache_def)
  from mru_calls_inv [OF assms this, of calls]
  have 3: "case mru_calls maxsize (new_mru a) calls of
             Inl (e, st) \<Rightarrow> \<not> reliable a
           | Inr st \<Rightarrow> len (entries (cache st)) \<le> maxsize"
    by (auto simp: mru_inv_def new_mru_def new_cache_def split: sum.splits)
  have "rr_inv maxsize (new_engine a)"
    using assms by (simp add: rr_inv_def new_engine_def new_cache_def)
  from rr_calls_inv [OF assms this, of rcalls]
  have 4: "case rr_calls maxsize (new_engine a) rcalls of
             Inl (e, st) \<Rightarrow> \<not> reliable a
           | Inr st \<Rightarrow> len (entries (cache st)) \<le> maxsize"
    by (auto simp: rr_inv_def new_engine_def new_cache_def split: sum.splits)
  from 1 2 3 4 show ?thesis by (auto split: sum.splits)
qed

text \<open>
  Runs with a \<open>dir_archive\<close> and with no archive: the third key overflows the cache,
  which is dumped and cleared, or purged. In the last run the serializer cannot write the
  value 99, which no call computes.
\<close>

theorem capacity_invariant_witness:
  "(\<exists>st. lfu_calls 2 (new_lfu (Dir_archive [] [])) [(1::nat, 10::nat), (2, 20), (3, 30), (1, 10)]
            = Inr st \<and> len (entries (cache st)) \<le> 2)
   \<and> (\<exists>st. lru_calls 2 (new_lru (Dir_archive [] [])) [(1::nat, 10::nat), (2, 20), (3, 30), (1, 10)]
            = Inr st \<and> len (entries (cache st)) \<le> 2)
   \<and> (\<exists>st. mru_calls 2 (new_mru (Dir_archive [] [])) [(1::nat, 10::nat), (2, 20), (3, 30), (1, 10)]
            = Inr st \<and> len (entries (cache st)) \<le> 2)
   \<and> (\<exists>st. rr_calls 2 (new_engine (Dir_archive [] []))
              [(1::nat, 10::nat, 5), (2, 20, 0), (3, 30, 7)]
            = Inr st \<and> len (entries (cache st)) \<le> 2)
   \<and> (\<exists>st. lfu_calls 2 (new_lfu Null_archive) [(1::nat, 10::nat), (2, 20), (3, 30), (1, 10)]
            = Inr st \<and> len (entries (cache st)) \<le> 2)
   \<and> (\<exists>st. lru_calls 2 (new_lru Null_archive) [(1::nat, 10::nat), (2, 20), (3, 30), (1, 10)]
            = Inr st \<and> len (entries (cache st)) \<le> 2)
   \<and> (\<exists>st. mru_calls 2 (new_mru Null_archive) [(1::nat, 10::nat), (2, 20), (3, 30), (1, 10)]
            = Inr st \<and> len (entries (cache st)) \<le> 2)
   \<and> (\<exists>st. rr_calls 2 (new_engine Null_archive) [(1::nat, 10::nat, 5), (2, 20, 0), (3, 30, 7)]
            = Inr st \<and> len (entries (cache st)) \<le> 2)
   \<and> lfu_calls 2 (new_lfu (Dir_archive [] [99])) [(1::nat, 10::nat), (2, 20), (3, 30), (1, 10)]
       = Inr \<lparr>cache = \<lparr>entries = [(1, 10)],
                       archive_slot = Dir_archive [(1, 10), (2, 20), (3, 30)] [99],
                       swap_slot = Null_archive\<rparr>,
              hit = 0, miss = 3, load = 1, use_count = [(1, 1)]\<rparr>
   \<and> len (entries (cache
         \<lparr>cache = \<lparr>entries = [(1::nat, 10::nat)],
                   archive_slot = Dir_archive [(1, 10), (2, 20), (3, 30)] [99],
                   swap_slot = Null_archive\<rparr>,
          hit = 0, miss = 3, load = 1, use_count = [(1::nat, 1)]\<rparr>)) \<le> 2"
proof -
  have e: "lfu_calls 2 (new_lfu (Dir_archive [] [99]))
        [(1::nat, 10::nat), (2, 20), (3, 30), (1, 10)]
       = Inr \<lparr>cache = \<lparr>entries = [(1, 10)],
                       archive_slot = Dir_archive [(1, 10), (2, 20), (3, 30)] [99],
                       swap_slot = Null_archive\<rparr>,
              hit = 0, miss = 3, load = 1, use_count = [(1, 1)]\<rparr>"
    by (simp add: new_lfu_def new_cache_def lfu_wrapper_def fetch_def cache_getitem_def
        dict_getitem_def archived_def cache_load_def load_arg_def archive_getitem_def
        cache_setitem_def dict_setitem_def counter_add_def counter_get_def len_def spill_def
        cache_dump_def archive_update_of_def dir_setitem_def cache_clear_def Let_def)
  show ?thesis
    using capacity_invariant [of 2 "Dir_archive [] []"
        "[(1::nat, 10::nat), (2, 20), (3, 30), (1, 10)]"
        "[(1::nat, 10::nat, 5), (2, 20, 0), (3, 30, 7)]"]
      capacity_invariant [of 2 Null_archive "[(1::nat, 10::nat), (2, 20), (3, 30), (1, 10)]"
        "[(1::nat, 10::nat, 5), (2, 20, 0), (3, 30, 7)]"]
      capacity_invariant [of 2 "Dir_archive [] [99]"
        "[(1::nat, 10::nat), (2, 20), (3, 30), (1, 10)]" "[]"] e
    by simp
qed

section \<open>Lookups in the directory archive\<close>

text \<open>
  C8: when the key's subdirectory is missing, or the value file is absent, or it cannot be
  read, or its contents fail to deserialize, \<open>__getitem__\<close> raises \<open>KeyError\<close> and
  \<open>get\<close> returns the default; and whatever \<open>__getitem__\<close> raises is a
  \<open>KeyError\<close>. (\<open>get\<close> returns a value in every case.)
\<close>

theorem lookup_faults_are_misses:
  "((tree d (getdir kc key) = None
     \<or> (\<exists>files. tree d (getdir kc key) = Some files
          \<and> (files (file_name d) = None
              \<or> (\<exists>f. files (file_name d) = Some f
                   \<and> (\<not> readable f \<or> contents f = Garbage)))))
    \<longrightarrow> getitem kc d key = Inl KeyError \<and> get kc d key dflt = dflt)
   \<and> (\<forall>e. getitem kc d key = Inl e \<longrightarrow> e = KeyError)"
  by (auto simp: get_def getitem_def lookup_def read_memo_def open_rb_def
      split: option.splits sum.splits)

text \<open>
  On \<open>shelf\<close>: the four kinds of fault, with the exception that the body of the
  \<open>try\<close> raises for the unreadable and for the corrupt file, and a key that is found.
\<close>

theorem lookup_faults_are_misses_witness:
  "getitem plain_keys shelf ''a'' = Inl KeyError \<and> get plain_keys shelf ''a'' ''d'' = ''d''
   \<and> getitem plain_keys shelf ''b'' = Inl KeyError \<and> get plain_keys shelf ''b'' ''d'' = ''d''
   \<and> read_memo (tree shelf) ''K_c'' ''output.pkl'' = Inl IOError
   \<and> getitem plain_keys shelf ''c'' = Inl KeyError \<and> get plain_keys shelf ''c'' ''d'' = ''d''
   \<and> read_memo (tree shelf) ''K_g'' ''output.pkl'' = Inl UnpicklingError
   \<and> getitem plain_keys shelf ''g'' = Inl KeyError \<and> get plain_keys shelf ''g'' ''d'' = ''d''
   \<and> getitem plain_keys shelf ''k'' = Inr ''v''"
  using lookup_faults_are_misses [of shelf plain_keys "''a''" "''d''"]
        lookup_faults_are_misses [of shelf plain_keys "''b''" "''d''"]
        lookup_faults_are_misses [of shelf plain_keys "''c''" "''d''"]
        lookup_faults_are_misses [of shelf plain_keys "''g''" "''d''"]
  by (simp add: shelf_def plain_keys_def getdir_def fname_def PREFIX_def file_name_def
      getitem_def lookup_def read_memo_def open_rb_def)

section \<open>A failed write in the directory archive\<close>

text \<open>Writing a file, and so the first \<open>try\<close> of \<open>_store\<close>, changes the
  tree in the temporary directory only.\<close>

lemma write_file_elsewhere:
  "write_file t dir name obj oc nodir = (e, t') \<Longrightarrow> dir' \<noteq> dir \<Longrightarrow> t' dir' = t dir'"
  by (auto simp: write_file_def split: option.splits write_outcome.splits)

lemma write_phase_elsewhere:
  assumes "write_phase d key val input rnd fl = (e, t)" and "dir' \<noteq> tempdir rnd"
  shows "t dir' = tree d dir'"
proof -
  let ?t1 = "if mkdir_ok fl \<and> tree d (tempdir rnd) = None
             then (tree d)(tempdir rnd \<mapsto> Map.empty) else tree d"
  obtain e1 t2 where w1: "write_file ?t1 (tempdir rnd) (file_name d) val (output_write fl)
                       (nodir_error fl) = (e1, t2)"
    by (cases "write_file ?t1 (tempdir rnd) (file_name d) val (output_write fl)
                       (nodir_error fl)") auto
  have a: "t2 dir' = tree d dir'"
    using write_file_elsewhere [OF w1 assms(2)] assms(2) by simp
  show ?thesis
  proof (cases "e1 = None \<and> input")
    case True
    then have "write_file t2 (tempdir rnd) (args_name d) key (input_write fl) (nodir_error fl)
        = (e, t)"
      using assms(1) w1 by (simp add: write_phase_def Let_def)
    from write_file_elsewhere [OF this assms(2)] a show ?thesis by simp
  next
    case False
    then have "t = t2" using assms(1) w1 by (auto simp: write_phase_def Let_def)
    then show ?thesis using a by simp
  qed
qed

text \<open>A lookup reads the key's subdirectory and nothing else of the tree.\<close>

lemma names_tree_update [simp]:
  "file_name (d\<lparr>tree := t\<rparr>) = file_name d"
  "args_name (d\<lparr>tree := t\<rparr>) = args_name d"
  by (simp_all add: file_name_def args_name_def)

lemma lookup_tree_cong:
  "t (getdir kc key) = tree d (getdir kc key) \<Longrightarrow>
   lookup kc (d\<lparr>tree := t\<rparr>) key inp = lookup kc d key inp"
  by (simp add: lookup_def read_memo_def open_rb_def cong: option.case_cong)

text \<open>
  An exception of the write phase that is not an \<open>OSError\<close> leaves \<open>_store\<close>
  before the move: when the temporary directory is not the key's own subdirectory,
  \<open>__setitem__\<close> raises it and a lookup of the key gives what it gave before, the value
  that was stored or a miss.
\<close>

lemma set_other_fault_keeps_entry:
  assumes "tempdir rnd \<noteq> getdir kc key"
    and "write_phase d key val (as_str kc key \<noteq> Some (fname kc key)) rnd fl = (Some e, t)"
    and "e \<noteq> OSError"
  shows "setitem kc d key val rnd fl = (Some e, d\<lparr>tree := t\<rparr>)
       \<and> getitem kc (d\<lparr>tree := t\<rparr>) key = getitem kc d key
       \<and> get kc (d\<lparr>tree := t\<rparr>) key dflt = get kc d key dflt"
proof -
  have s: "setitem kc d key val rnd fl = (Some e, d\<lparr>tree := t\<rparr>)"
    using assms(2,3) by (simp add: setitem_def store_def)
  have "t (getdir kc key) = tree d (getdir kc key)"
    using write_phase_elsewhere [OF assms(2)] assms(1) by simp
  then have "lookup kc (d\<lparr>tree := t\<rparr>) key False = lookup kc d key False"
    by (rule lookup_tree_cong)
  then show ?thesis using s by (simp add: getitem_def get_def)
qed

text \<open>
  On \<open>shelf\<close>: the serializer raises part-way through the value file with an exception
  that is not an \<open>OSError\<close>; the truncated file stays in the temporary directory and
  \<open>k\<close> still has the value \<open>v\<close>.
\<close>

lemma set_other_fault_on_shelf:
  "setitem plain_keys shelf ''k'' ''w'' ''r'' (no_faults\<lparr>output_write := DumpRaises OtherError\<rparr>)
     = (Some OtherError,
        shelf\<lparr>tree := (tree shelf)(''K_I_r'' \<mapsto>
           [''output.pkl'' \<mapsto> \<lparr>readable = True, contents = Garbage\<rparr>])\<rparr>)
   \<and> getitem plain_keys
        (shelf\<lparr>tree := (tree shelf)(''K_I_r'' \<mapsto>
           [''output.pkl'' \<mapsto> \<lparr>readable = True, contents = Garbage\<rparr>])\<rparr>) ''k''
      = Inr ''v''"
proof -
  let ?fl = "no_faults\<lparr>output_write := DumpRaises OtherError\<rparr>"
  let ?t = "(tree shelf)(''K_I_r'' \<mapsto>
           [''output.pkl'' \<mapsto> \<lparr>readable = True, contents = Garbage\<rparr>])"
  have a: "tempdir ''r'' \<noteq> getdir plain_keys ''k''"
    by (simp add: tempdir_def getdir_def fname_def plain_keys_def PREFIX_def TEMP_def)
  have b: "write_phase shelf ''k'' ''w'' (as_str plain_keys ''k'' \<noteq> Some (fname plain_keys ''k''))
             ''r'' ?fl = (Some OtherError, ?t)"
    by (simp add: shelf_def plain_keys_def fname_def PREFIX_def TEMP_def file_name_def
        write_phase_def write_file_def tempdir_def no_faults_def Let_def)
  have c: "OtherError \<noteq> OSError" by simp
  have g: "getitem plain_keys shelf ''k'' = Inr ''v''"
    by (simp add: shelf_def plain_keys_def getdir_def fname_def PREFIX_def file_name_def
      getitem_def lookup_def read_memo_def open_rb_def)
  show ?thesis
    using set_other_fault_keeps_entry [OF a b c] g by simp
qed

text \<open>
  C2: after a storage fault in the write phase of \<open>__setitem__\<close> the entry that was
  there is to be intact. The code breaks this when the fault is an \<open>OSError\<close>, which
  every failure of \<open>open\<close> and of writing is in Python 3. On \<open>shelf\<close>, where \<open>k\<close>
  is stored with \<open>v\<close>: whether the temporary directory cannot be created, or opening
  the value file in it raises, or the serializer raises part-way and leaves a truncated
  file, the write phase ends in an \<open>OSError\<close>; \<open>_store\<close> swallows it and goes on to
  remove the subdirectory of \<open>k\<close> and to move the temporary directory, if there is one,
  in its place; \<open>__setitem__\<close> returns without an exception, and the lookup of \<open>k\<close>
  raises \<open>KeyError\<close> afterwards: the value \<open>v\<close> is lost and \<open>get\<close> returns the
  default.
\<close>

theorem set_oserror_loses_entry:
  "getitem plain_keys shelf ''k'' = Inr ''v''
   \<and> fst (write_phase shelf ''k'' ''w'' False ''r''
            (no_faults\<lparr>output_write := OpenRaises OSError\<rparr>)) = Some OSError
   \<and> fst (setitem plain_keys shelf ''k'' ''w'' ''r''
            (no_faults\<lparr>output_write := OpenRaises OSError\<rparr>)) = None
   \<and> getitem plain_keys
        (snd (setitem plain_keys shelf ''k'' ''w'' ''r''
                (no_faults\<lparr>output_write := OpenRaises OSError\<rparr>))) ''k''
      = Inl KeyError
   \<and> get plain_keys
        (snd (setitem plain_keys shelf ''k'' ''w'' ''r''
                (no_faults\<lparr>output_write := OpenRaises OSError\<rparr>))) ''k'' ''d''
      = ''d''
   \<and> fst (write_phase shelf ''k'' ''w'' False ''r'' (no_faults\<lparr>mkdir_ok := False\<rparr>))
      = Some OSError
   \<and> fst (setitem plain_keys shelf ''k'' ''w'' ''r'' (no_faults\<lparr>mkdir_ok := False\<rparr>)) = None
   \<and> getitem plain_keys
        (snd (setitem plain_keys shelf ''k'' ''w'' ''r'' (no_faults\<lparr>mkdir_ok := False\<rparr>)))
        ''k''
      = Inl KeyError
   \<and> fst (write_phase shelf ''k'' ''w'' False ''r''
            (no_faults\<lparr>output_write := DumpRaises OSError\<rparr>)) = Some OSError
   \<and> fst (setitem plain_keys shelf ''k'' ''w'' ''r''
            (no_faults\<lparr>output_write := DumpRaises OSError\<rparr>)) = None
   \<and> getitem plain_keys
        (snd (setitem plain_keys shelf ''k'' ''w'' ''r''
                (no_faults\<lparr>output_write := DumpRaises OSError\<rparr>))) ''k''
      = Inl KeyError"
  by (simp add: shelf_def plain_keys_def getdir_def fname_def PREFIX_def TEMP_def file_name_def
      args_name_def getitem_def get_def lookup_def read_memo_def open_rb_def setitem_def
      store_def write_phase_def write_file_def move_phase_def tempdir_def no_faults_def
      Let_def)

end
